theory Spec2Isabelle
  imports Main "HOL-Library.Word"
begin

section \<open>Errors\<close>

text \<open>
  Go's \<^verbatim>\<open>error\<close> values. \<open>Errorf\<close> carries the message of an error built with
  \<^verbatim>\<open>fmt.Errorf\<close> (and stands for any error a backend reports); \<open>ErrDuplicateRefId\<close> and
  \<open>ErrQueryParamMismatch\<close> are the two sentinel errors of package \<^verbatim>\<open>query\<close>;
  \<open>ContextCanceled\<close> and \<open>DeadlineExceeded\<close> are the two values of \<^verbatim>\<open>ctx.Err()\<close>.
  A Go \<^verbatim>\<open>error\<close> that may be \<^verbatim>\<open>nil\<close> is an \<open>error option\<close>.
\<close>

datatype error =
    Errorf string
  | ErrDuplicateRefId
  | ErrQueryParamMismatch
  | ContextCanceled
  | DeadlineExceeded

section \<open>pkg/services/query/model.go\<close>

type_synonym DataSourceType = string

text \<open>
  \<^verbatim>\<open>backend.DataQuery\<close>: the identifier and the raw JSON payload are the fields this
  code reads.
\<close>

record DataQuery =
  RefID :: string
  JSON :: string

text \<open>
  \<^verbatim>\<open>parsedQuery\<close>: the pointers \<^verbatim>\<open>datasource\<close> and \<^verbatim>\<open>rawQuery\<close> are never
  dereferenced by the functions below; they live in the record's extension.
\<close>

record parsedQuery =
  query :: DataQuery

text \<open>
  \<^verbatim>\<open>parsedRequest\<close>. A Go map is listed in the order its \<^verbatim>\<open>range\<close> loop visits it
  (an order Go leaves open), one pair per key.
\<close>

record parsedRequest =
  hasExpression :: bool
  parsedQueries :: "(DataSourceType \<times> parsedQuery list) list"
  dsTypes :: "(DataSourceType \<times> bool) list"

text \<open>
  What \<^verbatim>\<open>validateRequest\<close> reads of the incoming HTTP request:
  \<^verbatim>\<open>URL.Query().Get("expression")\<close>, \<^verbatim>\<open>Header.Values(HeaderDatasourceUID)\<close> and
  \<^verbatim>\<open>Header.Values(HeaderPluginID)\<close>. \<^verbatim>\<open>contexthandler.FromContext(ctx)\<close> is a
  \<open>ReqContext option\<close>, and its \<^verbatim>\<open>Req\<close> may be \<^verbatim>\<open>nil\<close> too.
\<close>

record httpRequest =
  expression :: string
  datasourceUIDValues :: "string list"
  pluginIDValues :: "string list"

record ReqContext =
  Req :: "httpRequest option"

definition getFlattenedQueries :: "parsedRequest \<Rightarrow> parsedQuery list" where
  "getFlattenedQueries pr = foldl (\<lambda>queries (t, pq). queries @ pq) [] (parsedQueries pr)"

subsection \<open>strings.Split, strings.TrimSpace\<close>

fun Split :: "string \<Rightarrow> char \<Rightarrow> string list" where
  "Split [] sep = [[]]"
| "Split (c # s) sep =
     (if c = sep then [] # Split s sep
      else (case Split s sep of [] \<Rightarrow> [[c]] | w # ws \<Rightarrow> (c # w) # ws))"

text \<open>
  The UTF-8 encodings of the code points \<^verbatim>\<open>unicode.IsSpace\<close> accepts: tab, LF, VT, FF,
  CR, space, U+0085, U+00A0, U+1680, U+2000 to U+200A, U+2028, U+2029, U+202F, U+205F and
  U+3000.
\<close>

definition whiteSpace :: "string list" where
  "whiteSpace =
     [[CHR 0x09], [CHR 0x0A], [CHR 0x0B], [CHR 0x0C], [CHR 0x0D], [CHR 0x20],
      [CHR 0xC2, CHR 0x85], [CHR 0xC2, CHR 0xA0], [CHR 0xE1, CHR 0x9A, CHR 0x80],
      [CHR 0xE2, CHR 0x80, CHR 0x80], [CHR 0xE2, CHR 0x80, CHR 0x81],
      [CHR 0xE2, CHR 0x80, CHR 0x82], [CHR 0xE2, CHR 0x80, CHR 0x83],
      [CHR 0xE2, CHR 0x80, CHR 0x84], [CHR 0xE2, CHR 0x80, CHR 0x85],
      [CHR 0xE2, CHR 0x80, CHR 0x86], [CHR 0xE2, CHR 0x80, CHR 0x87],
      [CHR 0xE2, CHR 0x80, CHR 0x88], [CHR 0xE2, CHR 0x80, CHR 0x89],
      [CHR 0xE2, CHR 0x80, CHR 0x8A], [CHR 0xE2, CHR 0x80, CHR 0xA8],
      [CHR 0xE2, CHR 0x80, CHR 0xA9], [CHR 0xE2, CHR 0x80, CHR 0xAF],
      [CHR 0xE2, CHR 0x81, CHR 0x9F], [CHR 0xE3, CHR 0x80, CHR 0x80]]"

definition spaceLen :: "string list \<Rightarrow> string \<Rightarrow> nat" where
  "spaceLen encs s = (case filter (\<lambda>p. take (length p) s = p) encs of [] \<Rightarrow> 0 | p # _ \<Rightarrow> length p)"

text \<open>
  Drops leading white space, one code point at a time; \<open>n\<close> bounds the number of code
  points dropped, and \<open>length s\<close> always suffices.
\<close>

fun trimLeftN :: "nat \<Rightarrow> string list \<Rightarrow> string \<Rightarrow> string" where
  "trimLeftN 0 encs s = s"
| "trimLeftN (Suc n) encs s =
     (let k = spaceLen encs s in if k = 0 then s else trimLeftN n encs (drop k s))"

definition TrimSpace :: "string \<Rightarrow> string" where
  "TrimSpace s =
     (let l = trimLeftN (length s) whiteSpace s
      in rev (trimLeftN (length l) (map rev whiteSpace) (rev l)))"

fun splitHeaders :: "string list \<Rightarrow> string list" where
  "splitHeaders [] = []"
| "splitHeaders (v # headers) =
     (if CHR '','' \<in> set v then map TrimSpace (Split v CHR '','') else [v]) @ splitHeaders headers"

subsection \<open>validateRequest\<close>

text \<open>The identifiers of a sequence of queries, in order.\<close>

definition queryRefIDs :: "parsedQuery list \<Rightarrow> string list" where
  "queryRefIDs pq = map (\<lambda>q. DataQuery.RefID (query q)) pq"

text \<open>
  The inner loop of lines 35 to 40 over one bucket, and the outer loop of line 34 over the
  buckets. \<open>refIds\<close> is the \<^verbatim>\<open>map[string]bool\<close>; a missing key reads as false.
\<close>

fun checkRefIds :: "(string \<rightharpoonup> bool) \<Rightarrow> parsedQuery list \<Rightarrow> error + (string \<rightharpoonup> bool)" where
  "checkRefIds refIds [] = Inr refIds"
| "checkRefIds refIds (q # pq) =
     (if (case refIds (DataQuery.RefID (query q)) of Some b \<Rightarrow> b | None \<Rightarrow> False)
      then Inl ErrDuplicateRefId
      else checkRefIds (refIds(DataQuery.RefID (query q) \<mapsto> True)) pq)"

fun checkBuckets ::
  "(string \<rightharpoonup> bool) \<Rightarrow> (DataSourceType \<times> parsedQuery list) list \<Rightarrow> error + (string \<rightharpoonup> bool)" where
  "checkBuckets refIds [] = Inr refIds"
| "checkBuckets refIds ((t, pq) # rest) =
     (case checkRefIds refIds pq of
        Inl e \<Rightarrow> Inl e
      | Inr refIds' \<Rightarrow> checkBuckets refIds' rest)"

text \<open>
  Lines 48 to 89: the cross-check of the request's headers against the partition, which
  stands after the \<^verbatim>\<open>if true { return nil }\<close> of line 44.
\<close>

definition headerValidation :: "ReqContext option \<Rightarrow> parsedRequest \<Rightarrow> error option" where
  "headerValidation reqCtx pr =
     (case reqCtx of
        None \<Rightarrow> None
      | Some rc \<Rightarrow>
          (case Req rc of
             None \<Rightarrow> None
           | Some httpReq \<Rightarrow>
               if hasExpression pr then
                 (let hasExpr = expression httpReq
                  in if hasExpr = [] \<or> hasExpr = ''true'' then None
                     else Some ErrQueryParamMismatch)
               else
                 (let vals = splitHeaders (datasourceUIDValues httpReq); count = length vals
                  in if count > 0 \<and> (count \<noteq> length (parsedQueries pr)
                          \<or> list_ex (\<lambda>t. map_of (parsedQueries pr) t = None) vals)
                     then Some ErrQueryParamMismatch
                     else
                       (let vals = splitHeaders (pluginIDValues httpReq); count = length vals
                        in if count > 0 \<and> (count \<noteq> length (dsTypes pr)
                                \<or> list_ex (\<lambda>t. map_of (dsTypes pr) t \<noteq> Some True) vals)
                           then Some ErrQueryParamMismatch
                           else None))))"

definition validateRequest :: "ReqContext option \<Rightarrow> parsedRequest \<Rightarrow> error option" where
  "validateRequest reqCtx pr =
     (case checkBuckets Map.empty (parsedQueries pr) of
        Inl e \<Rightarrow> Some e
      | Inr refIds \<Rightarrow> if True then None else headerValidation reqCtx pr)"

section \<open>pkg/infra/httpclient/httpclientprovider/response_limit_middleware.go\<close>

text \<open>
  What the middleware reads of a \<^verbatim>\<open>*http.Response\<close>: its status code and its body.
  A round tripper returns a response pointer and an error, either of which may be
  \<^verbatim>\<open>nil\<close>.
\<close>

record 'b Response =
  StatusCode :: int
  Body :: 'b

type_synonym ('r, 'b) RoundTripper = "'r \<Rightarrow> 'b Response option \<times> error option"

definition StatusSwitchingProtocols :: int where
  "StatusSwitchingProtocols = 101"

definition ResponseLimitMiddlewareName :: string where
  "ResponseLimitMiddlewareName = ''response-limit''"

text \<open>
  The function \<^verbatim>\<open>ResponseLimitMiddleware(limit)\<close> registers under
  \<open>ResponseLimitMiddlewareName\<close>, applied to the options and the next round tripper.
  \<^verbatim>\<open>httpclient.MaxBytesReader\<close> is declared in another file of the repository and is a
  parameter here; \<open>limit\<close> is an \<^verbatim>\<open>int64\<close>.
\<close>

definition ResponseLimitMiddleware ::
  "('b \<Rightarrow> 64 word \<Rightarrow> 'b) \<Rightarrow> 64 word \<Rightarrow> 'o \<Rightarrow> ('r, 'b) RoundTripper \<Rightarrow> ('r, 'b) RoundTripper" where
  "ResponseLimitMiddleware MaxBytesReader limit opts next =
     (if sint limit \<le> 0 then next
      else (\<lambda>req.
        case next req of
          (res, Some e) \<Rightarrow> (None, Some e)
        | (None, None) \<Rightarrow> (None, None)
        | (Some r, None) \<Rightarrow>
            if StatusCode r \<noteq> StatusSwitchingProtocols
            then (Some (r\<lparr>Body := MaxBytesReader (Response.Body r) limit\<rparr>), None)
            else (Some r, None)))"

section \<open>pkg/tsdb/loki: the data source service\<close>

text \<open>
  What the code observes of a \<^verbatim>\<open>context.Context\<close>: the value of \<^verbatim>\<open>ctx.Err()\<close>,
  \<open>None\<close> until the context is cancelled or its deadline passes.
\<close>

type_synonym Context = "error option"

record 'c datasourceInfo =
  HTTPClient :: 'c
  URL :: string

record ResponseOpts =
  metricDataplane :: bool
  logsDataplane :: bool

text \<open>
  \<^verbatim>\<open>lokiQuery\<close> is declared in another file; \<open>RefID\<close> is the one field this file reads,
  every other field lives in the record's extension.
\<close>

record lokiQuery =
  RefID :: string

text \<open>
  \<^verbatim>\<open>backend.DataResponse\<close> (a \<^verbatim>\<open>nil\<close> slice of frames is the empty list) and
  \<^verbatim>\<open>backend.QueryDataResponse\<close>.
\<close>

record 'f DataResponse =
  Frames :: "'f list"
  Error :: "error option"

record 'f QueryDataResponse =
  Responses :: "string \<rightharpoonup> 'f DataResponse"


record RawLokiResponse =
  Body :: string
  Status :: int
  Encoding :: string

record CallResourceRequest =
  Method :: string
  URL :: string

record CallResourceResponse =
  Status :: int
  Headers :: "string \<rightharpoonup> string list"
  Body :: string

text \<open>
  The handle \<^verbatim>\<open>newLokiAPI\<close> returns, with its two methods. Both are declared in another
  file: the constructor is a parameter of the functions below, and the methods stand for
  the backend.
\<close>

record ('q, 'f) LokiAPI =
  DataQuery :: "Context \<Rightarrow> 'q \<Rightarrow> ResponseOpts \<Rightarrow> 'f list \<times> error option"
  RawQuery :: "Context \<Rightarrow> string \<Rightarrow> RawLokiResponse \<times> error option"

definition NewQueryDataResponse :: "'f QueryDataResponse" where
  "NewQueryDataResponse = \<lparr>Responses = Map.empty\<rparr>"

definition HasPrefix :: "string \<Rightarrow> string \<Rightarrow> bool" where
  "HasPrefix s pre = (take (length pre) s = pre)"


subsection \<open>callResource\<close>

text \<open>
  The calls \<^verbatim>\<open>callResource\<close> makes, in the order it makes them: an error line of the
  logger, the construction of the API handle, the network call of \<^verbatim>\<open>api.RawQuery\<close> with
  its URL, and \<^verbatim>\<open>sender.Send\<close> with the response it passes.
\<close>

datatype call =
    LogError string
  | NewLokiAPI
  | RawQueryCall string
  | SendCall CallResourceResponse

definition callResource ::
  "('c \<Rightarrow> string \<Rightarrow> bool \<Rightarrow> ('q, 'f) LokiAPI) \<Rightarrow> (CallResourceResponse \<Rightarrow> error option) \<Rightarrow> Context
     \<Rightarrow> CallResourceRequest \<Rightarrow> 'c datasourceInfo \<Rightarrow> error option \<times> call list" where
  "callResource newLokiAPI Send ctx req dsInfo =
     (let url = CallResourceRequest.URL req in
      if Method req \<noteq> ''GET''
      then (Some (Errorf (''invalid HTTP method: '' @ Method req)), [LogError ''Invalid HTTP method''])
      else if \<not> HasPrefix url ''labels?'' \<and> \<not> HasPrefix url ''label/''
              \<and> \<not> HasPrefix url ''series?'' \<and> \<not> HasPrefix url ''index/stats?''
      then (Some (Errorf (''invalid URL: '' @ url)), [LogError ''Invalid URL''])
      else
        (let lokiURL = ''/loki/api/v1/'' @ url;
             api = newLokiAPI (HTTPClient dsInfo) (datasourceInfo.URL dsInfo) False
         in case RawQuery api ctx lokiURL of
              (rawLokiResponse, Some e) \<Rightarrow>
                (Some e, [NewLokiAPI, RawQueryCall lokiURL, LogError ''Failed resource call from loki''])
            | (rawLokiResponse, None) \<Rightarrow>
                (let respHeaders = [''content-type'' \<mapsto> [''application/json'']];
                     respHeaders =
                       (if Encoding rawLokiResponse \<noteq> []
                        then respHeaders(''content-encoding'' \<mapsto> [Encoding rawLokiResponse])
                        else respHeaders);
                     resp = \<lparr>Status = RawLokiResponse.Status rawLokiResponse,
                             Headers = respHeaders,
                             Body = RawLokiResponse.Body rawLokiResponse\<rparr>
                 in (Send resp, [NewLokiAPI, RawQueryCall lokiURL, SendCall resp]))))"

subsection \<open>runQuery and executeQuery\<close>

text \<open>
  The loop of \<^verbatim>\<open>runQuery\<close> over the frames. \<^verbatim>\<open>adjustFrame\<close> is declared in another
  file and is a parameter: it rewrites the frame it is given or fails. The first failure
  ends the loop.
\<close>

fun adjustFrames ::
  "('f \<Rightarrow> 'q \<Rightarrow> bool \<Rightarrow> bool \<Rightarrow> 'f \<times> error option) \<Rightarrow> 'q \<Rightarrow> ResponseOpts \<Rightarrow> 'f list
     \<Rightarrow> 'f list \<times> error option" where
  "adjustFrames adjustFrame q responseOpts [] = ([], None)"
| "adjustFrames adjustFrame q responseOpts (frame # frames) =
     (case adjustFrame frame q (\<not> metricDataplane responseOpts) (logsDataplane responseOpts) of
        (frame', Some e) \<Rightarrow> ([], Some e)
      | (frame', None) \<Rightarrow>
          (case adjustFrames adjustFrame q responseOpts frames of
             (frames', Some e) \<Rightarrow> ([], Some e)
           | (frames', None) \<Rightarrow> (frame' # frames', None)))"

definition runQuery ::
  "Context \<Rightarrow> ('q, 'f) LokiAPI \<Rightarrow> ('f \<Rightarrow> 'q \<Rightarrow> bool \<Rightarrow> bool \<Rightarrow> 'f \<times> error option) \<Rightarrow> 'q \<Rightarrow> ResponseOpts
     \<Rightarrow> 'f list \<times> error option" where
  "runQuery ctx api adjustFrame q responseOpts =
     (case DataQuery api ctx q responseOpts of
        (frames, Some e) \<Rightarrow> ([], Some e)
      | (frames, None) \<Rightarrow> adjustFrames adjustFrame q responseOpts frames)"

definition executeQuery ::
  "Context \<Rightarrow> 'q \<Rightarrow> ('q, 'f) LokiAPI \<Rightarrow> ('f \<Rightarrow> 'q \<Rightarrow> bool \<Rightarrow> bool \<Rightarrow> 'f \<times> error option) \<Rightarrow> ResponseOpts
     \<Rightarrow> 'f DataResponse" where
  "executeQuery ctx q api adjustFrame responseOpts =
     (case runQuery ctx api adjustFrame q responseOpts of
        (frames, Some e) \<Rightarrow> \<lparr>Frames = [], Error = Some e\<rparr>
      | (frames, None) \<Rightarrow> \<lparr>Frames = frames, Error = None\<rparr>)"

subsection \<open>concurrency.ForEachJob\<close>

text \<open>
  \<^verbatim>\<open>ForEachJob(ctx, jobs, concurrency, jobFunc)\<close> belongs to the dependency
  \<^verbatim>\<open>github.com/grafana/dskit\<close>, not to the repository. It is modelled by its
  interleavings. With no job it returns \<^verbatim>\<open>nil\<close>. Otherwise it starts
  \<open>min concurrency jobs\<close> workers in an \<^verbatim>\<open>errgroup\<close> whose context derives from \<open>ctx\<close>;
  every worker runs

  \<^verbatim>\<open>for ctx.Err() == nil { idx := int(indexes.Inc()); if idx >= jobs { return nil };
     if err := jobFunc(ctx, idx); err != nil { return err } }; return ctx.Err()\<close>

  and \<^verbatim>\<open>ForEachJob\<close> returns what \<^verbatim>\<open>g.Wait()\<close> returns: the first error a worker
  returned, once every worker has returned. (A version of the library that calls the job
  of a single-job batch directly differs from this loop only for one job under a cancelled
  context.)

  A worker is about to test the context (\<open>Idle\<close>), is running the job of an index
  (\<open>Busy\<close>) or has returned. \<open>indexes\<close> counts the calls of \<^verbatim>\<open>indexes.Inc()\<close>, so it is the
  index the next call hands out. \<open>ctxErr\<close> is \<^verbatim>\<open>ctx.Err()\<close> of the group's context, \<open>err\<close>
  the group's first error and \<open>shared\<close> the state the jobs share. The workers are numbered
  from \<open>0\<close> to \<open>nworkers - 1\<close>.
\<close>

datatype worker = Idle | Busy nat | Returned

record 's group =
  indexes :: nat
  nworkers :: nat
  workers :: "nat \<Rightarrow> worker"
  ctxErr :: Context
  err :: "error option"
  shared :: 's

text \<open>
  A worker that returns an error: the group keeps the first one and cancels its context.
\<close>

definition errOnce :: "error \<Rightarrow> 's group \<Rightarrow> 's group" where
  "errOnce e g =
     (case err g of
        Some e' \<Rightarrow> g
      | None \<Rightarrow> g\<lparr>ctxErr := (case ctxErr g of None \<Rightarrow> Some ContextCanceled | Some c \<Rightarrow> Some c),
                  err := Some e\<rparr>)"

text \<open>
  One atomic action of worker \<open>k\<close>. An idle worker tests the context and takes the next
  index. A busy worker completes its job: the job reads the shared state nowhere but in the
  critical section that ends it, so its call of the backend and its write take place at
  once, under the context of that moment.
\<close>

definition workerStep ::
  "nat \<Rightarrow> (Context \<Rightarrow> nat \<Rightarrow> 's \<Rightarrow> 's \<times> error option) \<Rightarrow> nat \<Rightarrow> 's group \<Rightarrow> 's group" where
  "workerStep jobs jobFunc k g =
     (case workers g k of
        Returned \<Rightarrow> g
      | Idle \<Rightarrow>
          (case ctxErr g of
             Some e \<Rightarrow> errOnce e (g\<lparr>workers := (workers g)(k := Returned)\<rparr>)
           | None \<Rightarrow>
               if indexes g \<ge> jobs
               then g\<lparr>indexes := indexes g + 1, workers := (workers g)(k := Returned)\<rparr>
               else g\<lparr>indexes := indexes g + 1, workers := (workers g)(k := Busy (indexes g))\<rparr>)
      | Busy idx \<Rightarrow>
          (case jobFunc (ctxErr g) idx (shared g) of
             (s, Some e) \<Rightarrow> errOnce e (g\<lparr>workers := (workers g)(k := Returned), shared := s\<rparr>)
           | (s, None) \<Rightarrow> g\<lparr>workers := (workers g)(k := Idle), shared := s\<rparr>))"

text \<open>
  The events of a run: worker \<open>k\<close> takes its next action, or the caller's context is
  cancelled with the given error (which a context keeps once it has one).
\<close>

datatype event = Step nat | Cancel error

fun step :: "nat \<Rightarrow> (Context \<Rightarrow> nat \<Rightarrow> 's \<Rightarrow> 's \<times> error option) \<Rightarrow> event \<Rightarrow> 's group \<Rightarrow> 's group" where
  "step jobs jobFunc (Cancel e) g =
     (case ctxErr g of None \<Rightarrow> g\<lparr>ctxErr := Some e\<rparr> | Some c \<Rightarrow> g)"
| "step jobs jobFunc (Step k) g =
     (if k < nworkers g then workerStep jobs jobFunc k g else g)"

fun run :: "nat \<Rightarrow> (Context \<Rightarrow> nat \<Rightarrow> 's \<Rightarrow> 's \<times> error option) \<Rightarrow> event list \<Rightarrow> 's group \<Rightarrow> 's group" where
  "run jobs jobFunc [] g = g"
| "run jobs jobFunc (ev # evs) g = run jobs jobFunc evs (step jobs jobFunc ev g)"

text \<open>
  \<^verbatim>\<open>g.Wait()\<close> blocks until every worker has returned. After the events of the schedule
  the workers that have not returned run to their end, one after the other; a worker
  needs at most two actions for each index and two more.
\<close>

definition drain :: "nat \<Rightarrow> nat \<Rightarrow> event list" where
  "drain jobs w = concat (map (\<lambda>k. replicate (2 * jobs + 2) (Step k)) [0 ..< w])"

definition ForEachJob ::
  "event list \<Rightarrow> Context \<Rightarrow> nat \<Rightarrow> nat \<Rightarrow> (Context \<Rightarrow> nat \<Rightarrow> 's \<Rightarrow> 's \<times> error option) \<Rightarrow> 's
     \<Rightarrow> 's \<times> error option" where
  "ForEachJob sched ctx jobs concurrency jobFunc s =
     (if jobs = 0 then (s, None)
      else
        (let w = min concurrency jobs;
             g0 = \<lparr>indexes = 0, nworkers = w, workers = (\<lambda>k. Idle), ctxErr = ctx, err = None,
                   shared = s\<rparr>;
             g = run jobs jobFunc (sched @ drain jobs w) g0
         in (shared g, err g)))"

subsection \<open>queryData\<close>

text \<open>
  The body of the job (lines 198 to 204) and of the sequential loop (lines 208 and 209):
  one query is executed and its result stored under its identifier.
\<close>

definition storeResult ::
  "Context \<Rightarrow> ('q lokiQuery_scheme, 'f) LokiAPI
     \<Rightarrow> ('f \<Rightarrow> 'q lokiQuery_scheme \<Rightarrow> bool \<Rightarrow> bool \<Rightarrow> 'f \<times> error option) \<Rightarrow> ResponseOpts
     \<Rightarrow> 'q lokiQuery_scheme \<Rightarrow> 'f QueryDataResponse \<Rightarrow> 'f QueryDataResponse" where
  "storeResult ctx api adjustFrame responseOpts q result =
     (let queryRes = executeQuery ctx q api adjustFrame responseOpts
      in result\<lparr>Responses := (Responses result)(RefID q \<mapsto> queryRes)\<rparr>)"

text \<open>
  The function literal of line 197, which \<^verbatim>\<open>ForEachJob\<close> calls with indices below
  \<open>length queries\<close> only; it always returns \<^verbatim>\<open>nil\<close>.
\<close>

definition queryJob ::
  "('q lokiQuery_scheme, 'f) LokiAPI
     \<Rightarrow> ('f \<Rightarrow> 'q lokiQuery_scheme \<Rightarrow> bool \<Rightarrow> bool \<Rightarrow> 'f \<times> error option) \<Rightarrow> ResponseOpts
     \<Rightarrow> 'q lokiQuery_scheme list
     \<Rightarrow> Context \<Rightarrow> nat \<Rightarrow> 'f QueryDataResponse \<Rightarrow> 'f QueryDataResponse \<times> error option" where
  "queryJob api adjustFrame responseOpts queries ctx idx result =
     (storeResult ctx api adjustFrame responseOpts (queries ! idx) result, None)"

text \<open>
  \<^verbatim>\<open>queryData\<close>. \<^verbatim>\<open>parseQuery\<close> is declared in another file and is a parameter: it
  returns the parsed queries and an error. \<open>ctx\<close> is the state of the caller's context
  when \<^verbatim>\<open>queryData\<close> is entered. The sequential loop passes it to every query; in the
  parallel mode \<open>sched\<close>, the schedule of the workers, says when the context is cancelled
  while the queries run. Logging and the clock are left out.
\<close>

definition queryData ::
  "('c \<Rightarrow> string \<Rightarrow> bool \<Rightarrow> ('q lokiQuery_scheme, 'f) LokiAPI)
     \<Rightarrow> ('r \<Rightarrow> 'q lokiQuery_scheme list \<times> error option)
     \<Rightarrow> ('f \<Rightarrow> 'q lokiQuery_scheme \<Rightarrow> bool \<Rightarrow> bool \<Rightarrow> 'f \<times> error option)
     \<Rightarrow> event list \<Rightarrow> Context \<Rightarrow> 'r \<Rightarrow> 'c datasourceInfo \<Rightarrow> ResponseOpts \<Rightarrow> bool \<Rightarrow> bool
     \<Rightarrow> 'f QueryDataResponse \<times> error option" where
  "queryData newLokiAPI parseQuery adjustFrame sched ctx req dsInfo responseOpts
       runInParallel requestStructuredMetadata =
     (let result = NewQueryDataResponse;
          api = newLokiAPI (HTTPClient dsInfo) (datasourceInfo.URL dsInfo) requestStructuredMetadata
      in case parseQuery req of
           (queries, Some e) \<Rightarrow> (result, Some e)
         | (queries, None) \<Rightarrow>
             if runInParallel then
               ForEachJob sched ctx (length queries) 10
                 (queryJob api adjustFrame responseOpts queries) result
             else
               (foldl (\<lambda>result q. storeResult ctx api adjustFrame responseOpts q result)
                  result queries, None))"

subsection \<open>Invariants of a run\<close>

text \<open>
  Index \<open>i\<close> is held by a worker; the indices handed out, below \<open>n\<close>, whose job has
  completed.
\<close>

definition busy :: "'s group \<Rightarrow> nat \<Rightarrow> bool" where
  "busy g i = (\<exists>k. k < nworkers g \<and> workers g k = Busy i)"

definition finished :: "nat \<Rightarrow> 's group \<Rightarrow> nat set" where
  "finished n g = {i. i < indexes g \<and> i < n \<and> \<not> busy g i}"

text \<open>
  Every index a worker holds is a job's index and was handed out; no two workers hold the
  same index; while the group has no error, a worker has returned only after an index
  beyond the last job was handed out; the group's error, if any, is the context's.
\<close>

definition poolInv :: "nat \<Rightarrow> 's group \<Rightarrow> bool" where
  "poolInv n g =
     ((\<forall>k i. k < nworkers g \<and> workers g k = Busy i \<longrightarrow> i < n \<and> i < indexes g)
      \<and> (\<forall>k k' i. k < nworkers g \<and> k' < nworkers g \<and> workers g k = Busy i \<and> workers g k' = Busy i
            \<longrightarrow> k = k')
      \<and> (\<forall>k. err g = None \<and> k < nworkers g \<and> workers g k = Returned \<longrightarrow> n < indexes g)
      \<and> (err g = None \<or> err g = ctxErr g))"

text \<open>The response map holds an entry for exactly the queries whose job has completed.\<close>

definition domInv :: "'q lokiQuery_scheme list \<Rightarrow> 'f QueryDataResponse group \<Rightarrow> bool" where
  "domInv qs g =
     (dom (Responses (shared g)) = (\<lambda>i. RefID (qs ! i)) ` finished (length qs) g)"

text \<open>Every entry of the response map is the result of executing a query of that name.\<close>

definition entryInv ::
  "('q lokiQuery_scheme, 'f) LokiAPI
     \<Rightarrow> ('f \<Rightarrow> 'q lokiQuery_scheme \<Rightarrow> bool \<Rightarrow> bool \<Rightarrow> 'f \<times> error option) \<Rightarrow> ResponseOpts
     \<Rightarrow> 'q lokiQuery_scheme list \<Rightarrow> 'f QueryDataResponse \<Rightarrow> bool" where
  "entryInv api adjustFrame responseOpts qs result =
     (\<forall>r v. Responses result r = Some v \<longrightarrow>
        (\<exists>q c. q \<in> set qs \<and> RefID q = r \<and> v = executeQuery c q api adjustFrame responseOpts))"

text \<open>
  While the context is live, the entry of every completed job is the result of its query
  under a live context.
\<close>

definition valueInv ::
  "('q lokiQuery_scheme, 'f) LokiAPI
     \<Rightarrow> ('f \<Rightarrow> 'q lokiQuery_scheme \<Rightarrow> bool \<Rightarrow> bool \<Rightarrow> 'f \<times> error option) \<Rightarrow> ResponseOpts
     \<Rightarrow> 'q lokiQuery_scheme list \<Rightarrow> 'f QueryDataResponse group \<Rightarrow> bool" where
  "valueInv api adjustFrame responseOpts qs g =
     (ctxErr g = None
      \<and> (\<forall>i. i \<in> finished (length qs) g \<longrightarrow>
            Responses (shared g) (RefID (qs ! i))
              = Some (executeQuery None (qs ! i) api adjustFrame responseOpts)))"

text \<open>
  The number of actions worker \<open>k\<close> still takes, at most, when it runs alone.
\<close>

definition potential :: "nat \<Rightarrow> 's group \<Rightarrow> nat \<Rightarrow> nat" where
  "potential n g k =
     (case workers g k of
        Returned \<Rightarrow> 0
      | Idle \<Rightarrow> 2 * (n - indexes g) + 1
      | Busy i \<Rightarrow> 2 * (n - indexes g) + 2)"

text \<open>A schedule without cancellation.\<close>

fun isStep :: "event \<Rightarrow> bool" where
  "isStep (Step k) = True"
| "isStep (Cancel e) = False"

text \<open>
  The number of jobs that have been started when the workers have taken the actions of a
  schedule, under a live context: the indices handed out, at most \<open>jobs\<close>. Jobs that
  return no error have no part in it, so it is computed with jobs that do nothing.
\<close>

definition startedBy :: "event list \<Rightarrow> nat \<Rightarrow> nat \<Rightarrow> nat" where
  "startedBy sched jobs concurrency =
     min jobs (indexes (run jobs (\<lambda>ctx idx s. (s, None)) sched
       \<lparr>indexes = 0, nworkers = min concurrency jobs, workers = (\<lambda>k. Idle), ctxErr = None,
        err = None, shared = ()\<rparr>))"

subsection \<open>Inputs of the examples\<close>

text \<open>
  A deterministic backend: under a cancelled context it reports the context's error; the
  query whose expression is \<^verbatim>\<open>bad\<close> fails; every other query yields one frame, named
  after its expression. The expression is the extension of the query record, and a frame
  is its name. \<open>exampleAdjust\<close> leaves a frame as it is, and \<open>exampleParse\<close> takes a
  request that lists its parsed queries.
\<close>

definition exampleAPI :: "unit \<Rightarrow> string \<Rightarrow> bool \<Rightarrow> (string lokiQuery_scheme, string) LokiAPI" where
  "exampleAPI client url structuredMetadata =
     \<lparr>DataQuery = (\<lambda>ctx q responseOpts.
        case ctx of
          Some e \<Rightarrow> ([], Some e)
        | None \<Rightarrow>
            if lokiQuery.more q = ''bad'' then ([], Some (Errorf ''parse error''))
            else ([lokiQuery.more q], None)),
      RawQuery = (\<lambda>ctx lokiURL.
        (\<lparr>RawLokiResponse.Body = ''{}'', RawLokiResponse.Status = 200, Encoding = []\<rparr>, None))\<rparr>"

definition exampleAdjust :: "string \<Rightarrow> string lokiQuery_scheme \<Rightarrow> bool \<Rightarrow> bool \<Rightarrow> string \<times> error option" where
  "exampleAdjust frame q setMetricFrameName setFrameName = (frame, None)"

definition exampleParse :: "string lokiQuery_scheme list \<Rightarrow> string lokiQuery_scheme list \<times> error option" where
  "exampleParse req = (req, None)"

definition exampleQuery :: "string \<Rightarrow> string \<Rightarrow> string lokiQuery_scheme" where
  "exampleQuery refID expr = \<lparr>RefID = refID, \<dots> = expr\<rparr>"

definition exampleDS :: "unit datasourceInfo" where
  "exampleDS = \<lparr>HTTPClient = (), datasourceInfo.URL = ''http://loki:3100''\<rparr>"

definition exampleOpts :: ResponseOpts where
  "exampleOpts = \<lparr>metricDataplane = True, logsDataplane = True\<rparr>"




section \<open>Proofs: validateRequest\<close>

lemma getFlattenedQueries_concat_aux:
  "foldl (\<lambda>queries (t, pq). queries @ pq) acc bs = acc @ concat (map snd bs)"
  by (induction bs arbitrary: acc) (auto split: prod.splits)

lemma getFlattenedQueries_concat:
  "getFlattenedQueries pr = concat (map snd (parsedQueries pr))"
  by (simp add: getFlattenedQueries_def getFlattenedQueries_concat_aux)

lemma checkRefIds_Inl:
  "checkRefIds m pq = Inl e \<Longrightarrow> e = ErrDuplicateRefId"
  by (induction pq arbitrary: m) (auto split: if_splits)

lemma seen_upd:
  "{k. (m(r \<mapsto> True)) k = Some True} = insert r {k. m k = Some True}"
  by auto

lemma checkRefIds_Inr:
  "checkRefIds m pq = Inr m' \<Longrightarrow>
     {k. m' k = Some True} = {k. m k = Some True} \<union> set (queryRefIDs pq)
     \<and> distinct (queryRefIDs pq)
     \<and> set (queryRefIDs pq) \<inter> {k. m k = Some True} = {}"
proof (induction pq arbitrary: m)
  case Nil
  then show ?case by (simp add: queryRefIDs_def)
next
  case (Cons q pq)
  let ?r = "DataQuery.RefID (query q)"
  from Cons.prems have notseen: "?r \<notin> {k. m k = Some True}"
    by (auto split: if_splits option.splits)
  from Cons.prems have rec: "checkRefIds (m(?r \<mapsto> True)) pq = Inr m'"
    by (auto split: if_splits)
  from Cons.IH [OF rec] have
    a: "{k. m' k = Some True} = insert ?r {k. m k = Some True} \<union> set (queryRefIDs pq)" and
    b: "distinct (queryRefIDs pq)" and
    c: "set (queryRefIDs pq) \<inter> insert ?r {k. m k = Some True} = {}"
    unfolding seen_upd by simp_all
  have ids: "queryRefIDs (q # pq) = ?r # queryRefIDs pq"
    by (simp add: queryRefIDs_def)
  from c have c1: "?r \<notin> set (queryRefIDs pq)" by blast
  from c have c2: "set (queryRefIDs pq) \<inter> {k. m k = Some True} = {}" by blast
  show ?case
    unfolding ids using a b c1 c2 notseen by auto
qed

lemma checkRefIds_dup:
  "checkRefIds m pq = Inl e \<Longrightarrow>
     \<not> distinct (queryRefIDs pq) \<or> set (queryRefIDs pq) \<inter> {k. m k = Some True} \<noteq> {}"
proof (induction pq arbitrary: m)
  case Nil
  then show ?case by simp
next
  case (Cons q pq)
  let ?r = "DataQuery.RefID (query q)"
  have ids: "queryRefIDs (q # pq) = ?r # queryRefIDs pq"
    by (simp add: queryRefIDs_def)
  show ?case
  proof (cases "m ?r = Some True")
    case True
    then show ?thesis unfolding ids by auto
  next
    case False
    with Cons.prems have rec: "checkRefIds (m(?r \<mapsto> True)) pq = Inl e"
      by (auto split: if_splits option.splits)
    from Cons.IH [OF rec] have
      "\<not> distinct (queryRefIDs pq)
       \<or> set (queryRefIDs pq) \<inter> insert ?r {k. m k = Some True} \<noteq> {}"
      unfolding seen_upd .
    then show ?thesis unfolding ids by auto
  qed
qed

lemma checkBuckets_Inl:
  "checkBuckets m bs = Inl e \<Longrightarrow> e = ErrDuplicateRefId"
  by (induction m bs rule: checkBuckets.induct)
     (auto split: sum.splits dest: checkRefIds_Inl)

lemma queryRefIDs_append:
  "queryRefIDs (xs @ ys) = queryRefIDs xs @ queryRefIDs ys"
  by (simp add: queryRefIDs_def)

lemma checkBuckets_Inr:
  "checkBuckets m bs = Inr m' \<Longrightarrow>
     {k. m' k = Some True} = {k. m k = Some True} \<union> set (queryRefIDs (concat (map snd bs)))
     \<and> distinct (queryRefIDs (concat (map snd bs)))
     \<and> set (queryRefIDs (concat (map snd bs))) \<inter> {k. m k = Some True} = {}"
proof (induction m bs arbitrary: m' rule: checkBuckets.induct)
  case (1 refIds)
  then show ?case by (simp add: queryRefIDs_def)
next
  case (2 refIds t pq rest)
  from "2.prems" obtain m1 where
    one: "checkRefIds refIds pq = Inr m1" and rec: "checkBuckets m1 rest = Inr m'"
    by (auto split: sum.splits)
  let ?A = "set (queryRefIDs pq)"
  let ?B = "set (queryRefIDs (concat (map snd rest)))"
  let ?S = "{k. refIds k = Some True}"
  from checkRefIds_Inr [OF one] have
    a1: "{k. m1 k = Some True} = ?S \<union> ?A" and a2: "distinct (queryRefIDs pq)" and
    a3: "?A \<inter> ?S = {}"
    by simp_all
  from "2.IH" [OF one rec] have
    b1: "{k. m' k = Some True} = (?S \<union> ?A) \<union> ?B" and
    b2: "distinct (queryRefIDs (concat (map snd rest)))" and
    b3: "?B \<inter> (?S \<union> ?A) = {}"
    unfolding a1 by simp_all
  have ids: "queryRefIDs (concat (map snd ((t, pq) # rest)))
      = queryRefIDs pq @ queryRefIDs (concat (map snd rest))"
    by (simp add: queryRefIDs_append)
  from b3 have d1: "?A \<inter> ?B = {}" by blast
  from b3 a3 have d2: "(?A \<union> ?B) \<inter> ?S = {}" by blast
  from b1 have d3: "{k. m' k = Some True} = ?S \<union> (?A \<union> ?B)" by blast
  show ?case
    unfolding ids using a2 b2 d1 d2 d3 by simp
qed

lemma checkBuckets_dup:
  "checkBuckets m bs = Inl e \<Longrightarrow>
     \<not> distinct (queryRefIDs (concat (map snd bs)))
     \<or> set (queryRefIDs (concat (map snd bs))) \<inter> {k. m k = Some True} \<noteq> {}"
proof (induction m bs rule: checkBuckets.induct)
  case (1 refIds)
  then show ?case by simp
next
  case (2 refIds t pq rest)
  let ?A = "set (queryRefIDs pq)"
  let ?B = "set (queryRefIDs (concat (map snd rest)))"
  let ?S = "{k. refIds k = Some True}"
  have ids: "queryRefIDs (concat (map snd ((t, pq) # rest)))
      = queryRefIDs pq @ queryRefIDs (concat (map snd rest))"
    by (simp add: queryRefIDs_append)
  show ?case
  proof (cases "checkRefIds refIds pq")
    case (Inl e')
    from checkRefIds_dup [OF Inl] have "\<not> distinct (queryRefIDs pq) \<or> ?A \<inter> ?S \<noteq> {}" .
    then show ?thesis unfolding ids by auto
  next
    case (Inr m1)
    with "2.prems" have rec: "checkBuckets m1 rest = Inl e" by simp
    from checkRefIds_Inr [OF Inr] have a1: "{k. m1 k = Some True} = ?S \<union> ?A"
      by simp
    from "2.IH" [OF Inr rec] have
      "\<not> distinct (queryRefIDs (concat (map snd rest))) \<or> ?B \<inter> (?S \<union> ?A) \<noteq> {}"
      unfolding a1 .
    then show ?thesis unfolding ids by auto
  qed
qed

text \<open>
  C4. \<open>validateRequest\<close> returns \<open>ErrDuplicateRefId\<close> exactly when two queries of the
  partitioned request, in the same bucket or in different ones, carry the same \<open>RefID\<close>;
  when the identifiers of all buckets are pairwise distinct it returns no error.
\<close>

theorem validateRequest_duplicate_iff:
  "(validateRequest reqCtx pr = Some ErrDuplicateRefId)
     = (\<not> distinct (queryRefIDs (getFlattenedQueries pr)))
   \<and> (validateRequest reqCtx pr = None) = distinct (queryRefIDs (getFlattenedQueries pr))"
proof (cases "checkBuckets Map.empty (parsedQueries pr)")
  case (Inl e)
  from checkBuckets_Inl [OF Inl] have e: "e = ErrDuplicateRefId" .
  from checkBuckets_dup [OF Inl] have "\<not> distinct (queryRefIDs (getFlattenedQueries pr))"
    by (simp add: getFlattenedQueries_concat)
  with Inl e show ?thesis by (simp add: validateRequest_def)
next
  case (Inr m')
  from checkBuckets_Inr [OF Inr] have "distinct (queryRefIDs (getFlattenedQueries pr))"
    by (simp add: getFlattenedQueries_concat)
  with Inr show ?thesis by (simp add: validateRequest_def)
qed

theorem validateRequest_duplicate_iff_witness:
  "validateRequest None
     \<lparr>hasExpression = False,
      parsedQueries =
        [(''loki'', [\<lparr>query = \<lparr>DataQuery.RefID = ''A'', JSON = ''{}''\<rparr>\<rparr>]),
         (''prometheus'', [\<lparr>query = \<lparr>DataQuery.RefID = ''A'', JSON = ''{}''\<rparr>\<rparr>])],
      dsTypes = [(''loki'', True), (''prometheus'', True)]\<rparr>
   = Some ErrDuplicateRefId"
proof -
  let ?pr = "\<lparr>hasExpression = False,
      parsedQueries =
        [(''loki'', [\<lparr>query = \<lparr>DataQuery.RefID = ''A'', JSON = ''{}''\<rparr>\<rparr>]),
         (''prometheus'', [\<lparr>query = \<lparr>DataQuery.RefID = ''A'', JSON = ''{}''\<rparr>\<rparr>])],
      dsTypes = [(''loki'', True), (''prometheus'', True)]\<rparr>"
  have dup: "\<not> distinct (queryRefIDs (getFlattenedQueries ?pr))"
    by (simp add: getFlattenedQueries_def queryRefIDs_def)
  from validateRequest_duplicate_iff [of None ?pr] dup show ?thesis
    by blast
qed

text \<open>
  C5 (as amended). The cross-check of the headers stands behind the
  \<^verbatim>\<open>if true { return nil }\<close> of line 44 and is never reached: whatever the headers of the
  incoming request, \<open>validateRequest\<close> never returns \<open>ErrQueryParamMismatch\<close>, and for a
  partitioned request with distinct identifiers it returns no error at all.
\<close>

theorem validateRequest_header_check_bypassed:
  "validateRequest reqCtx pr \<noteq> Some ErrQueryParamMismatch
   \<and> (distinct (queryRefIDs (getFlattenedQueries pr)) \<longrightarrow> validateRequest reqCtx pr = None)"
proof (cases "checkBuckets Map.empty (parsedQueries pr)")
  case (Inl e)
  from checkBuckets_Inl [OF Inl] have e: "e = ErrDuplicateRefId" .
  from checkBuckets_dup [OF Inl] have "\<not> distinct (queryRefIDs (getFlattenedQueries pr))"
    by (simp add: getFlattenedQueries_concat)
  with Inl e show ?thesis by (simp add: validateRequest_def)
next
  case (Inr m')
  then show ?thesis by (simp add: validateRequest_def)
qed

theorem validateRequest_header_check_bypassed_witness:
  "validateRequest
     (Some \<lparr>Req = Some \<lparr>expression = [], datasourceUIDValues = [''uid1''],
                         pluginIDValues = [''loki'']\<rparr>\<rparr>)
     \<lparr>hasExpression = False,
      parsedQueries = [(''loki'', [\<lparr>query = \<lparr>DataQuery.RefID = ''A'', JSON = ''{}''\<rparr>\<rparr>,
                                   \<lparr>query = \<lparr>DataQuery.RefID = ''B'', JSON = ''{}''\<rparr>\<rparr>])],
      dsTypes = [(''loki'', True)]\<rparr>
   = None"
proof -
  let ?pr = "\<lparr>hasExpression = False,
      parsedQueries = [(''loki'', [\<lparr>query = \<lparr>DataQuery.RefID = ''A'', JSON = ''{}''\<rparr>\<rparr>,
                                   \<lparr>query = \<lparr>DataQuery.RefID = ''B'', JSON = ''{}''\<rparr>\<rparr>])],
      dsTypes = [(''loki'', True)]\<rparr>"
  have d: "distinct (queryRefIDs (getFlattenedQueries ?pr))"
    by (simp add: getFlattenedQueries_def queryRefIDs_def)
  from validateRequest_header_check_bypassed [of _ ?pr] d show ?thesis
    by blast
qed

text \<open>
  The claim C5 as it is stated fails: one query in one bucket, and a data source header
  that lists two entries. The cross-check of lines 48 to 89 would report the mismatch, and
  \<open>validateRequest\<close> returns no error.
\<close>

theorem validateRequest_mismatch_counterexample:
  "distinct (queryRefIDs (getFlattenedQueries
       \<lparr>hasExpression = False,
        parsedQueries = [(''loki'', [\<lparr>query = \<lparr>DataQuery.RefID = ''A'', JSON = ''{}''\<rparr>\<rparr>])],
        dsTypes = [(''loki'', True)]\<rparr>))
   \<and> splitHeaders [''uid1, uid2''] = [''uid1'', ''uid2'']
   \<and> headerValidation
       (Some \<lparr>Req = Some \<lparr>expression = [], datasourceUIDValues = [''uid1, uid2''],
                           pluginIDValues = [''loki'']\<rparr>\<rparr>)
       \<lparr>hasExpression = False,
        parsedQueries = [(''loki'', [\<lparr>query = \<lparr>DataQuery.RefID = ''A'', JSON = ''{}''\<rparr>\<rparr>])],
        dsTypes = [(''loki'', True)]\<rparr>
     = Some ErrQueryParamMismatch
   \<and> validateRequest
       (Some \<lparr>Req = Some \<lparr>expression = [], datasourceUIDValues = [''uid1, uid2''],
                           pluginIDValues = [''loki'']\<rparr>\<rparr>)
       \<lparr>hasExpression = False,
        parsedQueries = [(''loki'', [\<lparr>query = \<lparr>DataQuery.RefID = ''A'', JSON = ''{}''\<rparr>\<rparr>])],
        dsTypes = [(''loki'', True)]\<rparr>
     = None"
proof -
  have s: "splitHeaders [''uid1, uid2''] = [''uid1'', ''uid2'']"
    by (simp add: TrimSpace_def whiteSpace_def spaceLen_def Let_def)
  show ?thesis
    unfolding headerValidation_def s
    by (simp add: getFlattenedQueries_def queryRefIDs_def validateRequest_def)
qed

section \<open>Proofs: ResponseLimitMiddleware\<close>

text \<open>
  C9. With a limit of zero or less the middleware returns the next round tripper itself.
  With a positive limit it returns the error of the next round tripper unchanged (and no
  response), returns a \<^verbatim>\<open>nil\<close> response as it is, leaves a response with status 101
  untouched, and replaces the body of every other response by the \<open>MaxBytesReader\<close> of
  that body and the limit.
\<close>

theorem ResponseLimitMiddleware_behaviour:
  "(sint limit \<le> 0 \<longrightarrow> ResponseLimitMiddleware MaxBytesReader limit opts next = next)
   \<and> (0 < sint limit \<longrightarrow>
        (\<forall>req res e. next req = (res, Some e) \<longrightarrow>
           ResponseLimitMiddleware MaxBytesReader limit opts next req = (None, Some e))
      \<and> (\<forall>req. next req = (None, None) \<longrightarrow>
           ResponseLimitMiddleware MaxBytesReader limit opts next req = (None, None))
      \<and> (\<forall>req r. next req = (Some r, None) \<and> StatusCode r = 101 \<longrightarrow>
           ResponseLimitMiddleware MaxBytesReader limit opts next req = (Some r, None))
      \<and> (\<forall>req r. next req = (Some r, None) \<and> StatusCode r \<noteq> 101 \<longrightarrow>
           ResponseLimitMiddleware MaxBytesReader limit opts next req
             = (Some (r\<lparr>Response.Body := MaxBytesReader (Response.Body r) limit\<rparr>), None)))"
  by (simp add: ResponseLimitMiddleware_def StatusSwitchingProtocols_def split: option.splits)

theorem ResponseLimitMiddleware_behaviour_witness:
  "ResponseLimitMiddleware (\<lambda>b n. take (unat n) b) 2 ()
       (\<lambda>req :: nat. (Some \<lparr>StatusCode = 200, Response.Body = ''abc''\<rparr>, None)) 0
     = (Some \<lparr>StatusCode = 200, Response.Body = ''ab''\<rparr>, None)
   \<and> ResponseLimitMiddleware (\<lambda>b n. take (unat n) b) 2 ()
       (\<lambda>req :: nat. (Some \<lparr>StatusCode = 101, Response.Body = ''abc''\<rparr>, None)) 0
     = (Some \<lparr>StatusCode = 101, Response.Body = ''abc''\<rparr>, None)
   \<and> ResponseLimitMiddleware (\<lambda>b n. take (unat n) b) 2 ()
       (\<lambda>req :: nat. (None :: string Response option, Some (Errorf ''dial tcp''))) 0
     = (None, Some (Errorf ''dial tcp''))
   \<and> ResponseLimitMiddleware (\<lambda>b n. take (unat n) b) 0 ()
       (\<lambda>req :: nat. (Some \<lparr>StatusCode = 200, Response.Body = ''abc''\<rparr>, None))
     = (\<lambda>req :: nat. (Some \<lparr>StatusCode = 200, Response.Body = ''abc''\<rparr>, None))"
proof -
  have two: "0 < sint (2 :: 64 word)" by simp
  have zero: "sint (0 :: 64 word) \<le> 0" by simp
  have t: "take (unat (2 :: 64 word)) ''abc'' = ''ab''" by simp
  from ResponseLimitMiddleware_behaviour [of 2 "\<lambda>b n. take (unat n) b" "()"
      "\<lambda>req :: nat. (Some \<lparr>StatusCode = 200, Response.Body = ''abc''\<rparr>, None)"] two t
  have a: "ResponseLimitMiddleware (\<lambda>b n. take (unat n) b) 2 ()
       (\<lambda>req :: nat. (Some \<lparr>StatusCode = 200, Response.Body = ''abc''\<rparr>, None)) 0
     = (Some \<lparr>StatusCode = 200, Response.Body = ''ab''\<rparr>, None)"
    by simp
  from ResponseLimitMiddleware_behaviour [of 2 "\<lambda>b n. take (unat n) b" "()"
      "\<lambda>req :: nat. (Some \<lparr>StatusCode = 101, Response.Body = ''abc''\<rparr>, None)"] two
  have b: "ResponseLimitMiddleware (\<lambda>b n. take (unat n) b) 2 ()
       (\<lambda>req :: nat. (Some \<lparr>StatusCode = 101, Response.Body = ''abc''\<rparr>, None)) 0
     = (Some \<lparr>StatusCode = 101, Response.Body = ''abc''\<rparr>, None)"
    by simp
  from ResponseLimitMiddleware_behaviour [of 2 "\<lambda>b n. take (unat n) b" "()"
      "\<lambda>req :: nat. (None :: string Response option, Some (Errorf ''dial tcp''))"] two
  have c: "ResponseLimitMiddleware (\<lambda>b n. take (unat n) b) 2 ()
       (\<lambda>req :: nat. (None :: string Response option, Some (Errorf ''dial tcp''))) 0
     = (None, Some (Errorf ''dial tcp''))"
    by simp
  from ResponseLimitMiddleware_behaviour [of 0 "\<lambda>b n. take (unat n) b" "()"
      "\<lambda>req :: nat. (Some \<lparr>StatusCode = 200, Response.Body = ''abc''\<rparr>, None)"] zero
  have d: "ResponseLimitMiddleware (\<lambda>b n. take (unat n) b) 0 ()
       (\<lambda>req :: nat. (Some \<lparr>StatusCode = 200, Response.Body = ''abc''\<rparr>, None))
     = (\<lambda>req :: nat. (Some \<lparr>StatusCode = 200, Response.Body = ''abc''\<rparr>, None))"
    by simp
  from a b c d show ?thesis by blast
qed

section \<open>Proofs: callResource\<close>

text \<open>
  C8. When the method is not \<^verbatim>\<open>GET\<close>, or the URL starts with none of \<^verbatim>\<open>labels?\<close>,
  \<^verbatim>\<open>label/\<close>, \<^verbatim>\<open>series?\<close> and \<^verbatim>\<open>index/stats?\<close>, \<open>callResource\<close> returns an error and
  its only call is one error line of the logger: no API handle is built, no network call
  is issued and nothing is sent. A request that passes both checks is forwarded: the API
  handle is built and \<^verbatim>\<open>RawQuery\<close> is called with the URL under \<^verbatim>\<open>/loki/api/v1/\<close>.
\<close>

theorem callResource_rejects_before_any_call:
  "(Method req \<noteq> ''GET''
      \<or> \<not> (HasPrefix (CallResourceRequest.URL req) ''labels?''
           \<or> HasPrefix (CallResourceRequest.URL req) ''label/''
           \<or> HasPrefix (CallResourceRequest.URL req) ''series?''
           \<or> HasPrefix (CallResourceRequest.URL req) ''index/stats?'')
     \<longrightarrow> (\<exists>e. fst (callResource newLokiAPI Send ctx req dsInfo) = Some e)
         \<and> (\<exists>msg. snd (callResource newLokiAPI Send ctx req dsInfo) = [LogError msg]))
   \<and> (Method req = ''GET''
      \<and> (HasPrefix (CallResourceRequest.URL req) ''labels?''
           \<or> HasPrefix (CallResourceRequest.URL req) ''label/''
           \<or> HasPrefix (CallResourceRequest.URL req) ''series?''
           \<or> HasPrefix (CallResourceRequest.URL req) ''index/stats?'')
     \<longrightarrow> take 2 (snd (callResource newLokiAPI Send ctx req dsInfo))
           = [NewLokiAPI, RawQueryCall (''/loki/api/v1/'' @ CallResourceRequest.URL req)])"
  by (auto simp: callResource_def Let_def split: prod.splits option.splits)

theorem callResource_rejects_before_any_call_witness:
  "(\<exists>e. fst (callResource (\<lambda>c u m. \<lparr>DataQuery = (\<lambda>c (q :: lokiQuery) ro. ([] :: string list, None)),
             RawQuery = (\<lambda>c u. (\<lparr>RawLokiResponse.Body = ''{}'', RawLokiResponse.Status = 200,
                                   Encoding = []\<rparr>, None))\<rparr>)
        (\<lambda>resp. None) None \<lparr>Method = ''POST'', URL = ''labels?start=1''\<rparr>
        \<lparr>HTTPClient = (), datasourceInfo.URL = ''http://loki:3100''\<rparr>) = Some e)
   \<and> (\<exists>msg. snd (callResource (\<lambda>c u m. \<lparr>DataQuery = (\<lambda>c (q :: lokiQuery) ro. ([] :: string list, None)),
             RawQuery = (\<lambda>c u. (\<lparr>RawLokiResponse.Body = ''{}'', RawLokiResponse.Status = 200,
                                   Encoding = []\<rparr>, None))\<rparr>)
        (\<lambda>resp. None) None \<lparr>Method = ''POST'', URL = ''labels?start=1''\<rparr>
        \<lparr>HTTPClient = (), datasourceInfo.URL = ''http://loki:3100''\<rparr>) = [LogError msg])
   \<and> take 2 (snd (callResource (\<lambda>c u m. \<lparr>DataQuery = (\<lambda>c (q :: lokiQuery) ro. ([] :: string list, None)),
             RawQuery = (\<lambda>c u. (\<lparr>RawLokiResponse.Body = ''{}'', RawLokiResponse.Status = 200,
                                   Encoding = []\<rparr>, None))\<rparr>)
        (\<lambda>resp. None) None \<lparr>Method = ''GET'', URL = ''labels?start=1''\<rparr>
        \<lparr>HTTPClient = (), datasourceInfo.URL = ''http://loki:3100''\<rparr>))
     = [NewLokiAPI, RawQueryCall ''/loki/api/v1/labels?start=1'']"
  using
    callResource_rejects_before_any_call [of "\<lparr>Method = ''POST'', URL = ''labels?start=1''\<rparr>"
      "\<lambda>c u m. \<lparr>DataQuery = (\<lambda>c (q :: lokiQuery) ro. ([] :: string list, None)),
             RawQuery = (\<lambda>c u. (\<lparr>RawLokiResponse.Body = ''{}'', RawLokiResponse.Status = 200,
                                   Encoding = []\<rparr>, None))\<rparr>"
      "\<lambda>resp. None" None "\<lparr>HTTPClient = (), datasourceInfo.URL = ''http://loki:3100''\<rparr>"]
    callResource_rejects_before_any_call [of "\<lparr>Method = ''GET'', URL = ''labels?start=1''\<rparr>"
      "\<lambda>c u m. \<lparr>DataQuery = (\<lambda>c (q :: lokiQuery) ro. ([] :: string list, None)),
             RawQuery = (\<lambda>c u. (\<lparr>RawLokiResponse.Body = ''{}'', RawLokiResponse.Status = 200,
                                   Encoding = []\<rparr>, None))\<rparr>"
      "\<lambda>resp. None" None "\<lparr>HTTPClient = (), datasourceInfo.URL = ''http://loki:3100''\<rparr>"]
  by (simp add: HasPrefix_def)

text \<open>
  C10. When the request passes the checks and the backend call succeeds, \<open>callResource\<close>
  sends, and returns the outcome of sending, a response with the status and the body of
  the backend's response, with the header \<^verbatim>\<open>content-type\<close> set to
  \<^verbatim>\<open>application/json\<close>, and with a header \<^verbatim>\<open>content-encoding\<close> (the backend's
  \<open>Encoding\<close>) exactly when that \<open>Encoding\<close> is not empty; it sets no other header.
\<close>

theorem callResource_forwards_response:
  assumes "Method req = ''GET''"
    and "HasPrefix (CallResourceRequest.URL req) ''labels?''
           \<or> HasPrefix (CallResourceRequest.URL req) ''label/''
           \<or> HasPrefix (CallResourceRequest.URL req) ''series?''
           \<or> HasPrefix (CallResourceRequest.URL req) ''index/stats?''"
    and "RawQuery (newLokiAPI (HTTPClient dsInfo) (datasourceInfo.URL dsInfo) False) ctx
           (''/loki/api/v1/'' @ CallResourceRequest.URL req) = (raw, None)"
  shows "\<exists>resp. callResource newLokiAPI Send ctx req dsInfo
             = (Send resp, [NewLokiAPI, RawQueryCall (''/loki/api/v1/'' @ CallResourceRequest.URL req),
                            SendCall resp])
           \<and> CallResourceResponse.Status resp = RawLokiResponse.Status raw
           \<and> CallResourceResponse.Body resp = RawLokiResponse.Body raw
           \<and> Headers resp ''content-type'' = Some [''application/json'']
           \<and> Headers resp ''content-encoding''
               = (if Encoding raw = [] then None else Some [Encoding raw])
           \<and> dom (Headers resp) \<subseteq> {''content-type'', ''content-encoding''}"
  using assms by (auto simp: callResource_def Let_def)

theorem callResource_forwards_response_witness:
  "\<exists>resp. callResource (\<lambda>c u m. \<lparr>DataQuery = (\<lambda>c (q :: lokiQuery) ro. ([] :: string list, None)),
             RawQuery = (\<lambda>c u. (\<lparr>RawLokiResponse.Body = ''{}'', RawLokiResponse.Status = 200,
                                   Encoding = ''gzip''\<rparr>, None))\<rparr>)
        (\<lambda>resp. None) None \<lparr>Method = ''GET'', URL = ''series?match=up''\<rparr>
        \<lparr>HTTPClient = (), datasourceInfo.URL = ''http://loki:3100''\<rparr>
       = (None, [NewLokiAPI, RawQueryCall ''/loki/api/v1/series?match=up'', SendCall resp])
     \<and> CallResourceResponse.Status resp = 200
     \<and> CallResourceResponse.Body resp = ''{}''
     \<and> Headers resp ''content-type'' = Some [''application/json'']
     \<and> Headers resp ''content-encoding'' = Some [''gzip'']"
proof -
  let ?req = "\<lparr>Method = ''GET'', URL = ''series?match=up''\<rparr>"
  let ?raw = "\<lparr>RawLokiResponse.Body = ''{}'', RawLokiResponse.Status = 200, Encoding = ''gzip''\<rparr>"
  let ?new = "\<lambda>(c :: unit) (u :: string) (m :: bool).
      \<lparr>DataQuery = (\<lambda>c (q :: lokiQuery) ro. ([] :: string list, None)),
       RawQuery = (\<lambda>c u. (?raw, None))\<rparr>"
  let ?ds = "\<lparr>HTTPClient = (), datasourceInfo.URL = ''http://loki:3100''\<rparr>"
  have m: "Method ?req = ''GET''" by simp
  have u: "HasPrefix (CallResourceRequest.URL ?req) ''labels?''
           \<or> HasPrefix (CallResourceRequest.URL ?req) ''label/''
           \<or> HasPrefix (CallResourceRequest.URL ?req) ''series?''
           \<or> HasPrefix (CallResourceRequest.URL ?req) ''index/stats?''"
    by (simp add: HasPrefix_def)
  have r: "RawQuery (?new (HTTPClient ?ds) (datasourceInfo.URL ?ds) False) None
           (''/loki/api/v1/'' @ CallResourceRequest.URL ?req) = (?raw, None)"
    by simp
  from callResource_forwards_response [of ?req ?new ?ds None ?raw "\<lambda>resp. None", OF m u r]
  obtain resp where h:
    "callResource ?new (\<lambda>resp. None) None ?req ?ds
       = (None, [NewLokiAPI, RawQueryCall (''/loki/api/v1/'' @ CallResourceRequest.URL ?req),
                 SendCall resp])
     \<and> CallResourceResponse.Status resp = RawLokiResponse.Status ?raw
     \<and> CallResourceResponse.Body resp = RawLokiResponse.Body ?raw
     \<and> Headers resp ''content-type'' = Some [''application/json'']
     \<and> Headers resp ''content-encoding'' = (if Encoding ?raw = [] then None else Some [Encoding ?raw])
     \<and> dom (Headers resp) \<subseteq> {''content-type'', ''content-encoding''}"
    by (rule exE)
  show ?thesis using h
    by (intro exI [of _ resp]) (simp del: dom_eq_empty_conv)
qed

section \<open>Proofs: the worker pool\<close>

lemma run_append: "run n jf (a @ b) g = run n jf b (run n jf a g)"
  by (induction a arbitrary: g) simp_all

lemma errOnce_fields:
  "indexes (errOnce e g) = indexes g" "nworkers (errOnce e g) = nworkers g"
  "workers (errOnce e g) = workers g" "shared (errOnce e g) = shared g"
  by (simp_all add: errOnce_def split: option.splits)

lemma nworkers_step: "nworkers (step n jf ev g) = nworkers g"
  by (cases ev) (auto simp: workerStep_def errOnce_fields split: worker.splits option.splits prod.splits)

lemma nworkers_run: "nworkers (run n jf evs g) = nworkers g"
  by (induction evs arbitrary: g) (simp_all add: nworkers_step)

text \<open>The actions of a worker whose job does not fail.\<close>

lemma step_Busy:
  "k < nworkers g \<Longrightarrow> workers g k = Busy i \<Longrightarrow> snd (jf (ctxErr g) i (shared g)) = None \<Longrightarrow>
     step n jf (Step k) g
       = g\<lparr>workers := (workers g)(k := Idle), shared := fst (jf (ctxErr g) i (shared g))\<rparr>"
  by (cases "jf (ctxErr g) i (shared g)") (simp add: workerStep_def)

lemma step_Idle_live:
  "k < nworkers g \<Longrightarrow> workers g k = Idle \<Longrightarrow> ctxErr g = None \<Longrightarrow>
     step n jf (Step k) g
       = (if n \<le> indexes g
          then g\<lparr>indexes := indexes g + 1, workers := (workers g)(k := Returned)\<rparr>
          else g\<lparr>indexes := indexes g + 1, workers := (workers g)(k := Busy (indexes g))\<rparr>)"
  by (simp add: workerStep_def)

lemma step_Idle_cancelled:
  "k < nworkers g \<Longrightarrow> workers g k = Idle \<Longrightarrow> ctxErr g = Some e \<Longrightarrow>
     step n jf (Step k) g
       = (case err g of
            None \<Rightarrow> g\<lparr>workers := (workers g)(k := Returned), err := Some e\<rparr>
          | Some e' \<Rightarrow> g\<lparr>workers := (workers g)(k := Returned)\<rparr>)"
  by (simp add: workerStep_def errOnce_def split: option.splits)

text \<open>The cases of one event, for a job that never fails.\<close>

lemma step_cases [consumes 1, case_names outside busy take last cancelled cancel]:
  assumes noErr: "\<And>c i s. snd (jf c i s) = None"
    and "\<And>k. ev = Step k \<Longrightarrow> step n jf ev g = g \<Longrightarrow> P"
    and "\<And>k i. ev = Step k \<Longrightarrow> k < nworkers g \<Longrightarrow> workers g k = Busy i \<Longrightarrow>
           step n jf ev g
             = g\<lparr>workers := (workers g)(k := Idle), shared := fst (jf (ctxErr g) i (shared g))\<rparr> \<Longrightarrow> P"
    and "\<And>k. ev = Step k \<Longrightarrow> k < nworkers g \<Longrightarrow> workers g k = Idle \<Longrightarrow> ctxErr g = None \<Longrightarrow>
           indexes g < n \<Longrightarrow>
           step n jf ev g
             = g\<lparr>indexes := indexes g + 1, workers := (workers g)(k := Busy (indexes g))\<rparr> \<Longrightarrow> P"
    and "\<And>k. ev = Step k \<Longrightarrow> k < nworkers g \<Longrightarrow> workers g k = Idle \<Longrightarrow> ctxErr g = None \<Longrightarrow>
           n \<le> indexes g \<Longrightarrow>
           step n jf ev g
             = g\<lparr>indexes := indexes g + 1, workers := (workers g)(k := Returned)\<rparr> \<Longrightarrow> P"
    and "\<And>k e. ev = Step k \<Longrightarrow> k < nworkers g \<Longrightarrow> workers g k = Idle \<Longrightarrow> ctxErr g = Some e \<Longrightarrow>
           step n jf ev g
             = g\<lparr>workers := (workers g)(k := Returned),
                 err := (case err g of None \<Rightarrow> Some e | Some e' \<Rightarrow> Some e')\<rparr> \<Longrightarrow> P"
    and "\<And>e. ev = Cancel e \<Longrightarrow>
           step n jf ev g = g\<lparr>ctxErr := (case ctxErr g of None \<Rightarrow> Some e | Some c \<Rightarrow> Some c)\<rparr> \<Longrightarrow> P"
  shows P
proof (cases ev)
  case (Cancel e)
  have "step n jf ev g = g\<lparr>ctxErr := (case ctxErr g of None \<Rightarrow> Some e | Some c \<Rightarrow> Some c)\<rparr>"
    unfolding Cancel by (cases "ctxErr g") simp_all
  with Cancel assms(7) show ?thesis by blast
next
  case (Step k)
  show ?thesis
  proof (cases "k < nworkers g")
    case False
    with Step assms(2) show ?thesis by simp
  next
    case True
    show ?thesis
    proof (cases "workers g k")
      case Returned
      with Step assms(2) [of k] show ?thesis by (simp add: workerStep_def)
    next
      case (Busy i)
      have "snd (jf (ctxErr g) i (shared g)) = None" by (rule noErr)
      with step_Busy [where jf = jf and n = n and g = g and k = k and i = i]
        Step True Busy assms(3) [of k i]
      show ?thesis by simp
    next
      case Idle
      show ?thesis
      proof (cases "ctxErr g")
        case None
        from step_Idle_live [OF True Idle None, of n jf] Step True Idle None assms(4) [of k] assms(5) [of k]
        show ?thesis by (cases "n \<le> indexes g") simp_all
      next
        case (Some e)
        have "step n jf ev g
             = g\<lparr>workers := (workers g)(k := Returned),
                 err := (case err g of None \<Rightarrow> Some e | Some e' \<Rightarrow> Some e')\<rparr>"
          unfolding Step using step_Idle_cancelled [OF True Idle Some, of n jf]
          by (cases "err g") simp_all
        with Step True Idle Some assms(6) show ?thesis by blast
      qed
    qed
  qed
qed

lemma poolInvI:
  assumes "\<And>k i. k < nworkers g \<Longrightarrow> workers g k = Busy i \<Longrightarrow> i < n \<and> i < indexes g"
    and "\<And>k k' i. k < nworkers g \<Longrightarrow> k' < nworkers g \<Longrightarrow> workers g k = Busy i \<Longrightarrow>
           workers g k' = Busy i \<Longrightarrow> k = k'"
    and "\<And>k. err g = None \<Longrightarrow> k < nworkers g \<Longrightarrow> workers g k = Returned \<Longrightarrow> n < indexes g"
    and "err g = None \<or> err g = ctxErr g"
  shows "poolInv n g"
  unfolding poolInv_def using assms by blast

lemma poolInv_busy:
  "poolInv n g \<Longrightarrow> k < nworkers g \<Longrightarrow> workers g k = Busy i \<Longrightarrow> i < n \<and> i < indexes g"
  unfolding poolInv_def by blast

lemma poolInv_unique:
  "poolInv n g \<Longrightarrow> k < nworkers g \<Longrightarrow> k' < nworkers g \<Longrightarrow> workers g k = Busy i \<Longrightarrow>
     workers g k' = Busy i \<Longrightarrow> k = k'"
  unfolding poolInv_def by blast

lemma poolInv_returned:
  "poolInv n g \<Longrightarrow> err g = None \<Longrightarrow> k < nworkers g \<Longrightarrow> workers g k = Returned \<Longrightarrow> n < indexes g"
  unfolding poolInv_def by blast

lemma poolInv_err:
  "poolInv n g \<Longrightarrow> err g = None \<or> err g = ctxErr g"
  unfolding poolInv_def by blast

lemma poolInv_step:
  assumes noErr: "\<And>c i s. snd (jf c i s) = None" and inv: "poolInv n g"
  shows "poolInv n (step n jf ev g)"
  using noErr
proof (cases rule: step_cases [where ev = ev and n = n and g = g and jf = jf])
  case (outside k)
  with inv show ?thesis by simp
next
  case (busy k i)
  show ?thesis
    unfolding busy(4)
    by (rule poolInvI)
       (use inv in \<open>auto split: if_splits dest: poolInv_busy poolInv_unique poolInv_returned poolInv_err\<close>)
next
  case (take k)
  show ?thesis
    unfolding take(6)
    by (rule poolInvI)
       (use inv take(5) in \<open>auto split: if_splits dest: poolInv_busy poolInv_unique poolInv_returned poolInv_err\<close>)
next
  case (last k)
  show ?thesis
    unfolding last(6)
    by (rule poolInvI)
       (use inv last(5) in \<open>auto split: if_splits dest: poolInv_busy poolInv_unique poolInv_returned poolInv_err\<close>)
next
  case (cancelled k e)
  show ?thesis
    unfolding cancelled(5)
    by (rule poolInvI)
       (use inv cancelled(4) in \<open>auto split: if_splits option.splits dest: poolInv_busy poolInv_unique poolInv_returned poolInv_err\<close>)
next
  case (cancel e)
  show ?thesis
    unfolding cancel(2)
    by (rule poolInvI)
       (use inv in \<open>auto split: if_splits option.splits dest: poolInv_busy poolInv_unique poolInv_returned poolInv_err\<close>)
qed

section \<open>Proofs: the jobs of queryData\<close>

lemma queryJob_noErr: "snd (queryJob api adj ro qs c i s) = None"
  by (simp add: queryJob_def)

lemma Responses_queryJob:
  "Responses (fst (queryJob api adj ro qs c i s))
     = (Responses s)(RefID (qs ! i) \<mapsto> executeQuery c (qs ! i) api adj ro)"
  by (simp add: queryJob_def storeResult_def)

lemma busy_idle_upd:
  assumes "k < nworkers g" "workers g k = Idle"
    and "nworkers g' = nworkers g" "workers g' = (workers g)(k := v)"
  shows "busy g' i = (v = Busy i \<or> busy g i)"
proof -
  have "\<And>k'. workers g k' = Busy i \<Longrightarrow> k' \<noteq> k" using assms(2) by auto
  then show ?thesis using assms(1) unfolding busy_def assms(3,4) by auto
qed

lemma busy_busy_upd:
  assumes "poolInv n g" "k < nworkers g" "workers g k = Busy i"
    and "nworkers g' = nworkers g" "workers g' = (workers g)(k := Idle)"
  shows "busy g' j = (j \<noteq> i \<and> busy g j)"
proof -
  have b: "\<And>k'. k' < nworkers g \<Longrightarrow> workers g k' = Busy i \<Longrightarrow> k' = k"
    using poolInv_unique [OF assms(1) _ assms(2) _ assms(3)] by blast
  show ?thesis
  proof (cases "j = i")
    case True
    with b show ?thesis unfolding busy_def assms(4,5) by auto
  next
    case False
    with assms(3) have "\<And>k'. workers g k' = Busy j \<Longrightarrow> k' \<noteq> k" by auto
    with False show ?thesis unfolding busy_def assms(4,5) by auto
  qed
qed

lemma busy_same:
  assumes "nworkers g' = nworkers g" "workers g' = workers g"
  shows "busy g' i = busy g i"
  unfolding busy_def assms ..

lemma finished_busy:
  assumes "poolInv n g" "k < nworkers g" "workers g k = Busy i"
    and "nworkers g' = nworkers g" "workers g' = (workers g)(k := Idle)" "indexes g' = indexes g"
  shows "finished n g' = insert i (finished n g)"
proof -
  have a: "i < n \<and> i < indexes g" using poolInv_busy [OF assms(1,2,3)] .
  have c: "busy g i" using assms(2,3) unfolding busy_def by blast
  show ?thesis
    using a c by (auto simp: finished_def assms(6) busy_busy_upd [OF assms(1-5)])
qed

lemma finished_take:
  assumes "poolInv n g" "k < nworkers g" "workers g k = Idle"
    and "nworkers g' = nworkers g" "workers g' = (workers g)(k := Busy (indexes g))"
    and "indexes g' = indexes g + 1"
  shows "finished n g' = finished n g"
proof -
  have b: "\<And>i. busy g i \<Longrightarrow> i < indexes g"
    using poolInv_busy [OF assms(1)] unfolding busy_def by blast
  show ?thesis
    using b by (auto simp: finished_def assms(6) busy_idle_upd [OF assms(2-5)] less_Suc_eq)
qed

lemma finished_returned:
  assumes "k < nworkers g" "workers g k = Idle"
    and "nworkers g' = nworkers g" "workers g' = (workers g)(k := Returned)"
    and "indexes g' = indexes g \<or> n \<le> indexes g \<and> indexes g' = indexes g + 1"
  shows "finished n g' = finished n g"
  using assms(5) by (auto simp: finished_def busy_idle_upd [OF assms(1-4)])

lemma finished_same:
  assumes "nworkers g' = nworkers g" "workers g' = workers g" "indexes g' = indexes g"
  shows "finished n g' = finished n g"
  by (simp add: finished_def assms(3) busy_same [OF assms(1,2)])

lemma domInv_step:
  assumes inv: "poolInv (length qs) g" and d: "domInv qs g"
  shows "domInv qs (step (length qs) (queryJob api adj ro qs) ev g)"
  using queryJob_noErr
proof (cases rule: step_cases [where ev = ev and n = "length qs" and g = g
      and jf = "queryJob api adj ro qs"])
  case (outside k)
  with d show ?thesis by simp
next
  case (busy k i)
  have "finished (length qs) (step (length qs) (queryJob api adj ro qs) ev g)
      = insert i (finished (length qs) g)"
    by (rule finished_busy [OF inv busy(2,3)]) (simp_all add: busy(4))
  with d show ?thesis
    by (simp add: domInv_def busy(4) Responses_queryJob)
next
  case (take k)
  have "finished (length qs) (step (length qs) (queryJob api adj ro qs) ev g)
      = finished (length qs) g"
    by (rule finished_take [OF inv take(2,3)]) (simp_all add: take(6))
  with d show ?thesis
    by (simp add: domInv_def take(6))
next
  case (last k)
  have "finished (length qs) (step (length qs) (queryJob api adj ro qs) ev g)
      = finished (length qs) g"
    by (rule finished_returned [OF last(2,3)]) (simp_all add: last(5,6))
  with d show ?thesis
    by (simp add: domInv_def last(6))
next
  case (cancelled k e)
  have "finished (length qs) (step (length qs) (queryJob api adj ro qs) ev g)
      = finished (length qs) g"
    by (rule finished_returned [OF cancelled(2,3)]) (simp_all add: cancelled(5))
  with d show ?thesis
    by (simp add: domInv_def cancelled(5))
next
  case (cancel e)
  have "finished (length qs) (step (length qs) (queryJob api adj ro qs) ev g)
      = finished (length qs) g"
    by (rule finished_same) (simp_all add: cancel(2))
  with d show ?thesis
    by (simp add: domInv_def cancel(2))
qed

lemma entryInv_step:
  assumes inv: "poolInv (length qs) g" and d: "entryInv api adj ro qs (shared g)"
  shows "entryInv api adj ro qs (shared (step (length qs) (queryJob api adj ro qs) ev g))"
  using queryJob_noErr
proof (cases rule: step_cases [where ev = ev and n = "length qs" and g = g
      and jf = "queryJob api adj ro qs"])
  case (outside k)
  with d show ?thesis by simp
next
  case (busy k i)
  from poolInv_busy [OF inv busy(2,3)] have "qs ! i \<in> set qs" by simp
  with d show ?thesis
    unfolding busy(4) entryInv_def
    by (auto simp: Responses_queryJob)
next
  case (take k)
  with d show ?thesis by simp
next
  case (last k)
  with d show ?thesis by simp
next
  case (cancelled k e)
  with d show ?thesis by simp
next
  case (cancel e)
  with d show ?thesis by simp
qed

lemma distinct_RefID_nth:
  assumes "distinct (map RefID qs)" "i < length qs" "j < length qs" "j \<noteq> i"
  shows "RefID (qs ! j) \<noteq> RefID (qs ! i)"
proof -
  have "(map RefID qs ! j = map RefID qs ! i) = (j = i)"
    by (rule nth_eq_iff_index_eq) (use assms in simp_all)
  with assms(2,3,4) show ?thesis by simp
qed

lemma valueInv_step:
  assumes inv: "poolInv (length qs) g" and d: "valueInv api adj ro qs g"
    and dist: "distinct (map RefID qs)" and ev: "isStep ev"
  shows "valueInv api adj ro qs (step (length qs) (queryJob api adj ro qs) ev g)"
  using queryJob_noErr
proof (cases rule: step_cases [where ev = ev and n = "length qs" and g = g
      and jf = "queryJob api adj ro qs"])
  case (outside k)
  with d show ?thesis by simp
next
  case (busy k i)
  let ?g' = "step (length qs) (queryJob api adj ro qs) ev g"
  from d have live: "ctxErr g = None" by (simp add: valueInv_def)
  from poolInv_busy [OF inv busy(2,3)] have i: "i < length qs" by simp
  have fin: "finished (length qs) ?g' = insert i (finished (length qs) g)"
    by (rule finished_busy [OF inv busy(2,3)]) (simp_all add: busy(4))
  have resp: "Responses (shared ?g')
      = (Responses (shared g))(RefID (qs ! i) \<mapsto> executeQuery None (qs ! i) api adj ro)"
    by (simp add: busy(4) Responses_queryJob live)
  have "Responses (shared ?g') (RefID (qs ! j))
      = Some (executeQuery None (qs ! j) api adj ro)" if j: "j \<in> finished (length qs) ?g'" for j
  proof (cases "j = i")
    case True
    then show ?thesis by (simp add: resp)
  next
    case False
    with j fin have jf: "j \<in> finished (length qs) g" by simp
    then have "j < length qs" by (simp add: finished_def)
    from distinct_RefID_nth [OF dist i this False]
    have "Responses (shared ?g') (RefID (qs ! j)) = Responses (shared g) (RefID (qs ! j))"
      by (simp add: resp)
    with d jf show ?thesis by (simp add: valueInv_def)
  qed
  moreover have "ctxErr ?g' = None" by (simp add: busy(4) live)
  ultimately show ?thesis by (simp add: valueInv_def)
next
  case (take k)
  have "finished (length qs) (step (length qs) (queryJob api adj ro qs) ev g)
      = finished (length qs) g"
    by (rule finished_take [OF inv take(2,3)]) (simp_all add: take(6))
  with d show ?thesis
    by (simp add: valueInv_def take(6))
next
  case (last k)
  have "finished (length qs) (step (length qs) (queryJob api adj ro qs) ev g)
      = finished (length qs) g"
    by (rule finished_returned [OF last(2,3)]) (simp_all add: last(5,6))
  with d show ?thesis
    by (simp add: valueInv_def last(6))
next
  case (cancelled k e)
  with d show ?thesis by (simp add: valueInv_def)
next
  case (cancel e)
  with ev show ?thesis by simp
qed

text \<open>The invariants hold along a run.\<close>

lemma poolInv_run:
  assumes "\<And>c i s. snd (jf c i s) = None" "poolInv n g"
  shows "poolInv n (run n jf evs g)"
  using assms(2)
proof (induction evs arbitrary: g)
  case Nil
  then show ?case by simp
next
  case (Cons ev evs)
  from poolInv_step [of jf n g ev, OF assms(1) Cons.prems]
  show ?case by (simp add: Cons.IH)
qed

lemma queryInv_run:
  assumes "poolInv (length qs) g" "domInv qs g" "entryInv api adj ro qs (shared g)"
  shows "poolInv (length qs) (run (length qs) (queryJob api adj ro qs) evs g)
     \<and> domInv qs (run (length qs) (queryJob api adj ro qs) evs g)
     \<and> entryInv api adj ro qs (shared (run (length qs) (queryJob api adj ro qs) evs g))"
  using assms
proof (induction evs arbitrary: g)
  case Nil
  then show ?case by simp
next
  case (Cons ev evs)
  have a: "poolInv (length qs) (step (length qs) (queryJob api adj ro qs) ev g)"
    by (rule poolInv_step [OF queryJob_noErr Cons.prems(1)])
  have b: "domInv qs (step (length qs) (queryJob api adj ro qs) ev g)"
    by (rule domInv_step [OF Cons.prems(1,2)])
  have c: "entryInv api adj ro qs (shared (step (length qs) (queryJob api adj ro qs) ev g))"
    by (rule entryInv_step [OF Cons.prems(1,3)])
  from Cons.IH [OF a b c] show ?case by simp
qed

lemma valueInv_run:
  assumes "poolInv (length qs) g" "valueInv api adj ro qs g"
    and "distinct (map RefID qs)" "list_all isStep evs"
  shows "valueInv api adj ro qs (run (length qs) (queryJob api adj ro qs) evs g)"
  using assms(1,2,4)
proof (induction evs arbitrary: g)
  case Nil
  then show ?case by simp
next
  case (Cons ev evs)
  from Cons.prems(3) have ev: "isStep ev" and evs: "list_all isStep evs" by simp_all
  have a: "poolInv (length qs) (step (length qs) (queryJob api adj ro qs) ev g)"
    by (rule poolInv_step [OF queryJob_noErr Cons.prems(1)])
  have b: "valueInv api adj ro qs (step (length qs) (queryJob api adj ro qs) ev g)"
    by (rule valueInv_step [OF Cons.prems(1,2) assms(3) ev])
  from Cons.IH [OF a b evs] show ?case by simp
qed

text \<open>The context of a run: it keeps its error, and gets one from a cancellation only.\<close>

lemma ctxErr_step:
  assumes "\<And>c i s. snd (jf c i s) = None"
  shows "ctxErr (step n jf ev g) = ctxErr g
     \<or> (ctxErr g = None \<and> (\<exists>c. ev = Cancel c \<and> ctxErr (step n jf ev g) = Some c))"
  using assms
  by (cases rule: step_cases [where ev = ev and n = n and g = g and jf = jf])
     (auto split: option.splits)

lemma ctxErr_run:
  assumes "\<And>c i s. snd (jf c i s) = None"
  shows "ctxErr (run n jf evs g) = ctxErr g
     \<or> (ctxErr g = None \<and> (\<exists>c. Cancel c \<in> set evs \<and> ctxErr (run n jf evs g) = Some c))"
proof (induction evs arbitrary: g)
  case Nil
  then show ?case by simp
next
  case (Cons ev evs)
  from ctxErr_step [of jf n ev g, OF assms] Cons.IH [of "step n jf ev g"]
  show ?case by auto
qed

lemma potential_step:
  assumes "k < nworkers g"
  shows "potential n (step n jf (Step k) g) k \<le> potential n g k - 1"
proof (cases "workers g k")
  case Returned
  with assms show ?thesis by (simp add: workerStep_def potential_def)
next
  case Idle
  with assms show ?thesis
    by (auto simp: workerStep_def potential_def errOnce_fields split: option.splits)
next
  case (Busy i)
  with assms show ?thesis
    by (cases "jf (ctxErr g) i (shared g)")
       (auto simp: workerStep_def potential_def errOnce_fields split: option.splits)
qed

lemma potential_replicate:
  assumes "k < nworkers g"
  shows "potential n (run n jf (replicate m (Step k)) g) k \<le> potential n g k - m"
  using assms
proof (induction m arbitrary: g)
  case 0
  then show ?case by simp
next
  case (Suc m)
  from Suc.prems have k: "k < nworkers (step n jf (Step k) g)"
    by (simp only: nworkers_step)
  from Suc.IH [OF k] potential_step [OF Suc.prems, of n jf]
  show ?case by simp
qed

lemma potential_le: "potential n g k \<le> 2 * n + 2"
  by (cases "workers g k") (simp_all add: potential_def)

lemma potential_0: "potential n g k = 0 \<Longrightarrow> workers g k = Returned"
  by (cases "workers g k") (simp_all add: potential_def)

lemma worker_returns:
  assumes "k < nworkers g"
  shows "workers (run n jf (replicate (2 * n + 2) (Step k)) g) k = Returned"
proof -
  from potential_replicate [OF assms, of n jf "2 * n + 2"] potential_le [of n g k]
  have "potential n (run n jf (replicate (2 * n + 2) (Step k)) g) k = 0"
    by linarith
  then show ?thesis by (rule potential_0)
qed

lemma returned_step:
  assumes "workers g k = Returned"
  shows "workers (step n jf ev g) k = Returned"
proof (cases ev)
  case (Cancel e)
  with assms show ?thesis by (simp split: option.splits)
next
  case (Step k')
  show ?thesis
  proof (cases "k' = k")
    case True
    with assms Step show ?thesis by (simp add: workerStep_def)
  next
    case False
    with assms Step show ?thesis
      by (cases "workers g k'")
         (auto simp: workerStep_def errOnce_fields split: option.splits prod.splits)
  qed
qed

lemma returned_run:
  "workers g k = Returned \<Longrightarrow> workers (run n jf evs g) k = Returned"
  by (induction evs arbitrary: g) (simp_all add: returned_step)

lemma drain_Suc: "drain n (Suc w) = drain n w @ replicate (2 * n + 2) (Step w)"
  by (simp add: drain_def)

lemma drain_returns:
  assumes "w \<le> nworkers g" "k < w"
  shows "workers (run n jf (drain n w) g) k = Returned"
  using assms
proof (induction w arbitrary: k)
  case 0
  then show ?case by simp
next
  case (Suc w)
  let ?g = "run n jf (drain n w) g"
  show ?case
  proof (cases "k = w")
    case True
    from Suc.prems have "w < nworkers ?g" by (simp add: nworkers_run)
    from worker_returns [OF this, of n jf] True show ?thesis
      by (simp only: drain_Suc run_append)
  next
    case False
    with Suc.prems have "workers ?g k = Returned" by (intro Suc.IH) simp_all
    then have "workers (run n jf (replicate (2 * n + 2) (Step w)) ?g) k = Returned"
      by (rule returned_run)
    then show ?thesis
      by (simp only: drain_Suc run_append)
  qed
qed

lemma isStep_drain: "list_all isStep (drain n w)"
  by (simp add: drain_def list_all_iff)

lemma Cancel_drain: "Cancel c \<notin> set (drain n w)"
  by (auto simp: drain_def)

lemma set_take_nth: "k \<le> length qs \<Longrightarrow> (\<lambda>i. f (qs ! i)) ` {i. i < k} = f ` set (take k qs)"
proof -
  assume "k \<le> length qs"
  then have "nth qs ` {0 ..< k} = set (take k qs)" by (rule nth_image)
  moreover have "{i. i < k} = {0 ..< k}" by auto
  ultimately show ?thesis by (simp add: image_image [symmetric])
qed

text \<open>The state \<^verbatim>\<open>ForEachJob\<close> starts from satisfies the invariants.\<close>

lemma init_inv:
  fixes qs :: "'q lokiQuery_scheme list"
  shows "poolInv n \<lparr>indexes = 0, nworkers = w, workers = (\<lambda>k. Idle), ctxErr = c, err = None,
                   shared = NewQueryDataResponse\<rparr>"
    and "domInv qs \<lparr>indexes = 0, nworkers = w, workers = (\<lambda>k. Idle), ctxErr = c, err = None,
                   shared = NewQueryDataResponse\<rparr>"
    and "entryInv api adj ro qs (shared \<lparr>indexes = 0, nworkers = w, workers = (\<lambda>k. Idle),
                   ctxErr = c, err = None, shared = NewQueryDataResponse\<rparr>)"
    and "valueInv api adj ro qs \<lparr>indexes = 0, nworkers = w, workers = (\<lambda>k. Idle), ctxErr = None,
                   err = None, shared = NewQueryDataResponse\<rparr>"
  by (simp_all add: poolInv_def domInv_def entryInv_def valueInv_def finished_def
      NewQueryDataResponse_def)

text \<open>What \<^verbatim>\<open>ForEachJob\<close> returns for the job of \<^verbatim>\<open>queryData\<close>, under any schedule.\<close>

lemma ForEachJob_queryJob:
  fixes qs :: "'q lokiQuery_scheme list"
  assumes "ForEachJob sched c (length qs) 10 (queryJob api adj ro qs) NewQueryDataResponse = (res, e)"
  shows "\<exists>k \<le> length qs. dom (Responses res) = RefID ` set (take k qs) \<and> (e = None \<longrightarrow> k = length qs)"
    and "e = None \<or> e = c \<or> (\<exists>x. Cancel x \<in> set sched \<and> e = Some x)"
    and "entryInv api adj ro qs res"
proof -
  let ?n = "length qs"
  let ?w = "min 10 ?n"
  let ?init = "\<lparr>indexes = 0, nworkers = ?w, workers = (\<lambda>k. Idle), ctxErr = c, err = None,
              shared = (NewQueryDataResponse :: 'f QueryDataResponse)\<rparr>"
  let ?g = "run ?n (queryJob api adj ro qs) (sched @ drain ?n ?w) ?init"
  have goal: "(\<exists>k \<le> length qs. dom (Responses res) = RefID ` set (take k qs) \<and> (e = None \<longrightarrow> k = length qs))
      \<and> (e = None \<or> e = c \<or> (\<exists>x. Cancel x \<in> set sched \<and> e = Some x))
      \<and> entryInv api adj ro qs res"
  proof (cases "?n = 0")
    case True
    with assms have "res = NewQueryDataResponse" and "e = None"
      by (simp_all add: ForEachJob_def)
    with True show ?thesis
      by (simp add: NewQueryDataResponse_def entryInv_def)
  next
    case False
    with assms have res: "res = shared ?g" and e: "e = err ?g"
      by (simp_all add: ForEachJob_def Let_def)
    have "poolInv ?n ?g \<and> domInv qs ?g \<and> entryInv api adj ro qs (shared ?g)"
      by (rule queryInv_run) (rule init_inv)+
    then have pool: "poolInv ?n ?g" and dm: "domInv qs ?g"
      and ent: "entryInv api adj ro qs (shared ?g)"
      by simp_all
    have nw: "nworkers ?g = ?w" by (simp add: nworkers_run)
    have ret: "workers ?g k = Returned" if "k < ?w" for k
      using drain_returns [where w = ?w and g = "run ?n (queryJob api adj ro qs) sched ?init"
          and k = k and n = ?n and jf = "queryJob api adj ro qs"] that
      by (simp add: run_append nworkers_run)
    have nobusy: "\<not> busy ?g i" for i
      using ret unfolding busy_def nw by auto
    let ?k = "min (indexes ?g) ?n"
    have fin: "finished ?n ?g = {i. i < ?k}"
      using nobusy by (auto simp: finished_def)
    have "dom (Responses res) = (\<lambda>i. RefID (qs ! i)) ` finished ?n ?g"
      using dm by (simp only: domInv_def res)
    also have "\<dots> = (\<lambda>i. RefID (qs ! i)) ` {i. i < ?k}"
      by (simp only: fin)
    also have "\<dots> = RefID ` set (take ?k qs)"
      by (rule set_take_nth) simp
    finally have d: "dom (Responses res) = RefID ` set (take ?k qs)" .
    have full: "?k = ?n" if "e = None"
    proof -
      from False have "0 < ?w" by simp
      from poolInv_returned [OF pool _ _ ret [OF this]] that e nw \<open>0 < ?w\<close>
      have "?n < indexes ?g" by simp
      then show ?thesis by simp
    qed
    have ctx: "ctxErr ?g = c \<or> (\<exists>x. Cancel x \<in> set sched \<and> ctxErr ?g = Some x)"
      using ctxErr_run [of "queryJob api adj ro qs" ?n "sched @ drain ?n ?w" ?init, OF queryJob_noErr]
      by (auto simp: Cancel_drain)
    from poolInv_err [OF pool] ctx e
    have origin: "e = None \<or> e = c \<or> (\<exists>x. Cancel x \<in> set sched \<and> e = Some x)"
      by auto
    from d full origin ent res show ?thesis
      by (metis min.cobounded2)
  qed
  from goal show "\<exists>k \<le> length qs. dom (Responses res) = RefID ` set (take k qs) \<and> (e = None \<longrightarrow> k = length qs)"
    and "e = None \<or> e = c \<or> (\<exists>x. Cancel x \<in> set sched \<and> e = Some x)"
    and "entryInv api adj ro qs res"
    by blast+
qed

text \<open>Once the context has an error no index is handed out, and the context keeps it.\<close>

lemma cancelled_step:
  assumes "ctxErr g = Some c"
  shows "indexes (step n jf ev g) = indexes g \<and> ctxErr (step n jf ev g) = Some c"
proof (cases ev)
  case (Cancel e)
  with assms show ?thesis by simp
next
  case (Step k)
  show ?thesis
  proof (cases "workers g k")
    case Returned
    with assms Step show ?thesis by (simp add: workerStep_def)
  next
    case Idle
    with assms Step show ?thesis
      by (simp add: workerStep_def errOnce_def split: option.splits)
  next
    case (Busy i)
    with assms Step show ?thesis
      by (cases "jf (ctxErr g) i (shared g)")
         (simp add: workerStep_def errOnce_def split: option.splits)
  qed
qed

lemma cancelled_run:
  "ctxErr g = Some c \<Longrightarrow>
     indexes (run n jf evs g) = indexes g \<and> ctxErr (run n jf evs g) = Some c"
proof (induction evs arbitrary: g)
  case Nil
  then show ?case by simp
next
  case (Cons ev evs)
  from cancelled_step [OF Cons.prems, of n jf ev]
  have a: "indexes (step n jf ev g) = indexes g" and b: "ctxErr (step n jf ev g) = Some c"
    by simp_all
  from Cons.IH [OF b] a show ?case by simp
qed

text \<open>
  The indices handed out, the workers, the context and the error of a run do not depend on
  what the jobs do, as long as no job returns an error.
\<close>

lemma control_step:
  assumes "\<And>c i s. snd (jf c i s) = None" "\<And>c i s. snd (jf' c i s) = None"
    and "indexes g = indexes g'" "nworkers g = nworkers g'" "workers g = workers g'"
    and "ctxErr g = ctxErr g'" "err g = err g'"
  shows "indexes (step n jf ev g) = indexes (step n jf' ev g')
     \<and> nworkers (step n jf ev g) = nworkers (step n jf' ev g')
     \<and> workers (step n jf ev g) = workers (step n jf' ev g')
     \<and> ctxErr (step n jf ev g) = ctxErr (step n jf' ev g')
     \<and> err (step n jf ev g) = err (step n jf' ev g')"
proof (cases ev)
  case (Cancel e)
  with assms(3-7) show ?thesis by (simp split: option.splits)
next
  case (Step k)
  show ?thesis
  proof (cases "workers g' k")
    case Returned
    with assms(3-7) Step show ?thesis by (simp add: workerStep_def)
  next
    case Idle
    with assms(3-7) Step show ?thesis
      by (simp add: workerStep_def errOnce_def split: option.splits)
  next
    case (Busy i)
    obtain s where a: "jf (ctxErr g') i (shared g) = (s, None)"
      using assms(1) [of "ctxErr g'" i "shared g"] by (cases "jf (ctxErr g') i (shared g)") simp
    obtain s' where b: "jf' (ctxErr g') i (shared g') = (s', None)"
      using assms(2) [of "ctxErr g'" i "shared g'"] by (cases "jf' (ctxErr g') i (shared g')") simp
    from assms(3-7) Step Busy a b show ?thesis
      by (simp add: workerStep_def)
  qed
qed

lemma control_run:
  assumes "\<And>c i s. snd (jf c i s) = None" "\<And>c i s. snd (jf' c i s) = None"
  shows "indexes g = indexes g' \<Longrightarrow> nworkers g = nworkers g' \<Longrightarrow> workers g = workers g' \<Longrightarrow>
     ctxErr g = ctxErr g' \<Longrightarrow> err g = err g' \<Longrightarrow>
     indexes (run n jf evs g) = indexes (run n jf' evs g')"
proof (induction evs arbitrary: g g')
  case Nil
  then show ?case by simp
next
  case (Cons ev evs)
  from control_step [where jf = jf and jf' = jf' and g = g and g' = g' and n = n and ev = ev,
      OF assms Cons.prems]
  have "indexes (run n jf evs (step n jf ev g)) = indexes (run n jf' evs (step n jf' ev g'))"
    by (intro Cons.IH) simp_all
  then show ?case by simp
qed

text \<open>The state in which \<^verbatim>\<open>ForEachJob\<close> ends, for the job of \<^verbatim>\<open>queryData\<close>.\<close>

lemma ForEachJob_final:
  fixes qs :: "'q lokiQuery_scheme list" and api :: "('q lokiQuery_scheme, 'f) LokiAPI"
  assumes "length qs \<noteq> 0"
    and "g = run (length qs) (queryJob api adj ro qs) (sched @ drain (length qs) (min 10 (length qs)))
           \<lparr>indexes = 0, nworkers = min 10 (length qs), workers = (\<lambda>k. Idle), ctxErr = c,
            err = None, shared = (NewQueryDataResponse :: 'f QueryDataResponse)\<rparr>"
  shows "ForEachJob sched c (length qs) 10 (queryJob api adj ro qs) NewQueryDataResponse
           = (shared g, err g)"
    and "dom (Responses (shared g)) = RefID ` set (take (min (indexes g) (length qs)) qs)"
    and "err g = None \<Longrightarrow> length qs < indexes g"
    and "err g = None \<or> err g = ctxErr g"
proof -
  let ?n = "length qs"
  let ?w = "min 10 ?n"
  let ?init = "\<lparr>indexes = 0, nworkers = ?w, workers = (\<lambda>k. Idle), ctxErr = c, err = None,
              shared = (NewQueryDataResponse :: 'f QueryDataResponse)\<rparr>"
  from assms(1) show "ForEachJob sched c ?n 10 (queryJob api adj ro qs) NewQueryDataResponse
           = (shared g, err g)"
    unfolding assms(2) by (simp add: ForEachJob_def Let_def)
  have "poolInv ?n g \<and> domInv qs g \<and> entryInv api adj ro qs (shared g)"
    unfolding assms(2) by (rule queryInv_run) (rule init_inv)+
  then have pool: "poolInv ?n g" and dm: "domInv qs g"
    by simp_all
  have nw: "nworkers g = ?w" unfolding assms(2) by (simp add: nworkers_run)
  have ret: "workers g k = Returned" if "k < ?w" for k
    unfolding assms(2)
    using drain_returns [where w = ?w and g = "run ?n (queryJob api adj ro qs) sched ?init"
        and k = k and n = ?n and jf = "queryJob api adj ro qs"] that
    by (simp add: run_append nworkers_run)
  have nobusy: "\<not> busy g i" for i
    using ret unfolding busy_def nw by auto
  let ?k = "min (indexes g) ?n"
  have fin: "finished ?n g = {i. i < ?k}"
    using nobusy by (auto simp: finished_def)
  have "dom (Responses (shared g)) = (\<lambda>i. RefID (qs ! i)) ` finished ?n g"
    using dm by (simp only: domInv_def)
  also have "\<dots> = (\<lambda>i. RefID (qs ! i)) ` {i. i < ?k}"
    by (simp only: fin)
  also have "\<dots> = RefID ` set (take ?k qs)"
    by (rule set_take_nth) simp
  finally show "dom (Responses (shared g)) = RefID ` set (take ?k qs)" .
  show "?n < indexes g" if "err g = None"
  proof -
    from assms(1) have "0 < ?w" by simp
    from poolInv_returned [OF pool that _ ret [OF this]] nw \<open>0 < ?w\<close>
    show ?thesis by simp
  qed
  from poolInv_err [OF pool] show "err g = None \<or> err g = ctxErr g" .
qed

text \<open>
  A context that is cancelled when \<^verbatim>\<open>ForEachJob\<close> is called: no job is started.
\<close>

lemma ForEachJob_cancelled:
  fixes qs :: "'q lokiQuery_scheme list" and api :: "('q lokiQuery_scheme, 'f) LokiAPI"
  assumes "length qs \<noteq> 0"
  shows "ForEachJob sched (Some c) (length qs) 10 (queryJob api adj ro qs)
           (NewQueryDataResponse :: 'f QueryDataResponse)
         = (NewQueryDataResponse, Some c)"
proof -
  let ?n = "length qs"
  let ?w = "min 10 ?n"
  let ?init = "\<lparr>indexes = 0, nworkers = ?w, workers = (\<lambda>k. Idle), ctxErr = Some c, err = None,
              shared = (NewQueryDataResponse :: 'f QueryDataResponse)\<rparr>"
  define g where "g = run ?n (queryJob api adj ro qs) (sched @ drain ?n ?w) ?init"
  note f = ForEachJob_final [OF assms g_def]
  have "ctxErr ?init = Some c" by simp
  from cancelled_run [OF this, of ?n "queryJob api adj ro qs" "sched @ drain ?n ?w"]
  have idx: "indexes g = 0" and ctx: "ctxErr g = Some c"
    unfolding g_def by simp_all
  from f(2) idx have "dom (Responses (shared g)) = {}" by simp
  then have "Responses (shared g) = Map.empty" by simp
  then have res: "shared g = NewQueryDataResponse"
    by (simp add: NewQueryDataResponse_def)
  from f(3) idx have "err g \<noteq> None" by auto
  with f(4) ctx have "err g = Some c" by auto
  with f(1) res show ?thesis by simp
qed

text \<open>
  A context that is cancelled while the workers run: the queries started before the
  cancellation get their entry, and no other query does.
\<close>

lemma ForEachJob_cancel:
  fixes qs :: "'q lokiQuery_scheme list" and api :: "('q lokiQuery_scheme, 'f) LokiAPI"
  assumes "length qs \<noteq> 0" and "list_all isStep pre"
    and "ForEachJob (pre @ Cancel c # post) None (length qs) 10 (queryJob api adj ro qs)
           (NewQueryDataResponse :: 'f QueryDataResponse) = (res, e)"
  shows "dom (Responses res) = RefID ` set (take (startedBy pre (length qs) 10) qs)"
    and "startedBy pre (length qs) 10 < length qs \<Longrightarrow> e = Some c"
proof -
  let ?n = "length qs"
  let ?w = "min 10 ?n"
  let ?jf = "queryJob api adj ro qs"
  let ?init = "\<lparr>indexes = 0, nworkers = ?w, workers = (\<lambda>k. Idle), ctxErr = None, err = None,
              shared = (NewQueryDataResponse :: 'f QueryDataResponse)\<rparr>"
  define g where "g = run ?n ?jf ((pre @ Cancel c # post) @ drain ?n ?w) ?init"
  define g1 where "g1 = run ?n ?jf pre ?init"
  note f = ForEachJob_final [OF assms(1) g_def]
  from f(1) assms(3) have res: "res = shared g" and e: "e = err g" by simp_all
  have "Cancel x \<notin> set pre" for x
    using assms(2) by (auto simp: list_all_iff)
  with ctxErr_run [of ?jf ?n pre ?init, OF queryJob_noErr]
  have live: "ctxErr g1 = None" unfolding g1_def by auto
  have g: "g = run ?n ?jf (post @ drain ?n ?w) (step ?n ?jf (Cancel c) g1)"
    unfolding g_def g1_def by (simp add: run_append)
  from live have c2: "ctxErr (step ?n ?jf (Cancel c) g1) = Some c"
    and i2: "indexes (step ?n ?jf (Cancel c) g1) = indexes g1"
    by simp_all
  from cancelled_run [OF c2, of ?n ?jf "post @ drain ?n ?w"] i2
  have idx: "indexes g = indexes g1" and ctx: "ctxErr g = Some c"
    unfolding g by simp_all
  have "indexes g1 = indexes (run ?n (\<lambda>ctx idx s. (s, None)) pre
       \<lparr>indexes = 0, nworkers = ?w, workers = (\<lambda>k. Idle), ctxErr = None,
        err = None, shared = ()\<rparr>)"
    unfolding g1_def
    by (rule control_run) (simp_all add: queryJob_noErr)
  then have st: "startedBy pre ?n 10 = min (indexes g) ?n"
    unfolding startedBy_def idx by (simp add: min.commute)
  from f(2) show "dom (Responses res) = RefID ` set (take (startedBy pre ?n 10) qs)"
    unfolding st res .
  show "e = Some c" if "startedBy pre ?n 10 < ?n"
  proof -
    from that st have "\<not> ?n < indexes g" by simp
    with f(3) have "err g \<noteq> None" by auto
    with f(4) ctx e show ?thesis by auto
  qed
qed

section \<open>Proofs: the sequential loop\<close>

lemma Responses_storeResult:
  "Responses (storeResult c api adj ro q r)
     = (Responses r)(RefID q \<mapsto> executeQuery c q api adj ro)"
  by (simp add: storeResult_def)

lemma seq_dom:
  "dom (Responses (foldl (\<lambda>result q. storeResult c api adj ro q result) r qs))
     = dom (Responses r) \<union> RefID ` set qs"
  by (induction qs arbitrary: r) (auto simp: Responses_storeResult)

lemma seq_cong:
  "Responses r1 x = Responses r2 x \<Longrightarrow>
     Responses (foldl (\<lambda>result q. storeResult c api adj ro q result) r1 qs) x
       = Responses (foldl (\<lambda>result q. storeResult c api adj ro q result) r2 qs) x"
  by (induction qs arbitrary: r1 r2) (simp_all add: Responses_storeResult)

lemma seq_other:
  "x \<notin> RefID ` set qs \<Longrightarrow>
     Responses (foldl (\<lambda>result q. storeResult c api adj ro q result) r qs) x = Responses r x"
  by (induction qs arbitrary: r) (simp_all add: Responses_storeResult)

lemma seq_entry:
  assumes "RefID q \<notin> RefID ` set qs2"
  shows "Responses (foldl (\<lambda>result q. storeResult c api adj ro q result) r (qs1 @ q # qs2)) (RefID q)
     = Some (executeQuery c q api adj ro)"
proof -
  let ?f = "\<lambda>result q. storeResult c api adj ro q result"
  have "Responses (foldl ?f (storeResult c api adj ro q (foldl ?f r qs1)) qs2) (RefID q)
      = Responses (storeResult c api adj ro q (foldl ?f r qs1)) (RefID q)"
    by (rule seq_other [OF assms])
  then show ?thesis by (simp add: Responses_storeResult)
qed

lemma seq_isolation:
  assumes "x \<noteq> RefID q"
  shows "Responses (foldl (\<lambda>result q. storeResult c api adj ro q result) r (qs1 @ q # qs2)) x
     = Responses (foldl (\<lambda>result q. storeResult c api adj ro q result) r (qs1 @ qs2)) x"
proof -
  let ?f = "\<lambda>result q. storeResult c api adj ro q result"
  have "Responses (storeResult c api adj ro q (foldl ?f r qs1)) x = Responses (foldl ?f r qs1) x"
    using assms by (simp add: Responses_storeResult)
  then have "Responses (foldl ?f (storeResult c api adj ro q (foldl ?f r qs1)) qs2) x
      = Responses (foldl ?f (foldl ?f r qs1) qs2) x"
    by (rule seq_cong)
  then show ?thesis by simp
qed

lemma seq_value:
  assumes "distinct (map RefID qs)" "q \<in> set qs"
  shows "Responses (foldl (\<lambda>result q. storeResult c api adj ro q result) r qs) (RefID q)
     = Some (executeQuery c q api adj ro)"
proof -
  from assms(2) obtain qs1 qs2 where qs: "qs = qs1 @ q # qs2"
    by (auto simp: in_set_conv_decomp)
  with assms(1) have "RefID q \<notin> RefID ` set qs2" by auto
  from seq_entry [OF this] show ?thesis unfolding qs .
qed

lemma seq_entryInv:
  "entryInv api adj ro qs r \<Longrightarrow> set qs' \<subseteq> set qs \<Longrightarrow>
     entryInv api adj ro qs (foldl (\<lambda>result q. storeResult c api adj ro q result) r qs')"
proof (induction qs' arbitrary: r)
  case Nil
  then show ?case by simp
next
  case (Cons q qs')
  from Cons.prems have "entryInv api adj ro qs (storeResult c api adj ro q r)"
    unfolding entryInv_def by (auto simp: Responses_storeResult)
  with Cons.prems(2) Cons.IH show ?case by simp
qed

text \<open>
  Without cancellation and with distinct identifiers, \<^verbatim>\<open>ForEachJob\<close> leaves the map the
  sequential loop builds, under every schedule.
\<close>

lemma ForEachJob_live:
  fixes qs :: "'q lokiQuery_scheme list" and api :: "('q lokiQuery_scheme, 'f) LokiAPI"
  assumes dist: "distinct (map RefID qs)" and steps: "list_all isStep sched"
  shows "ForEachJob sched None (length qs) 10 (queryJob api adj ro qs) NewQueryDataResponse
     = (foldl (\<lambda>result q. storeResult None api adj ro q result) NewQueryDataResponse qs, None)"
proof (cases "length qs = 0")
  case True
  then show ?thesis by (simp add: ForEachJob_def)
next
  case False
  let ?n = "length qs"
  let ?w = "min 10 ?n"
  let ?init = "\<lparr>indexes = 0, nworkers = ?w, workers = (\<lambda>k. Idle), ctxErr = None, err = None,
              shared = (NewQueryDataResponse :: 'f QueryDataResponse)\<rparr>"
  let ?g = "run ?n (queryJob api adj ro qs) (sched @ drain ?n ?w) ?init"
  let ?seq = "foldl (\<lambda>result q. storeResult None api adj ro q result) NewQueryDataResponse qs"
  obtain res e where fe:
    "ForEachJob sched None ?n 10 (queryJob api adj ro qs) (NewQueryDataResponse :: 'f QueryDataResponse)
       = (res, e)"
    by (cases "ForEachJob sched None ?n 10 (queryJob api adj ro qs)
         (NewQueryDataResponse :: 'f QueryDataResponse)")
  with False have res: "res = shared ?g" and e: "e = err ?g"
    by (simp_all add: ForEachJob_def Let_def)
  have pool: "poolInv ?n ?g"
    by (rule poolInv_run [OF queryJob_noErr]) (rule init_inv)
  have "list_all isStep (sched @ drain ?n ?w)"
    using steps by (simp add: isStep_drain)
  then have val: "valueInv api adj ro qs ?g"
    by (intro valueInv_run init_inv dist)
  from val have live: "ctxErr ?g = None" by (simp add: valueInv_def)
  with poolInv_err [OF pool] e have e_none: "e = None" by auto
  from ForEachJob_queryJob(1) [OF fe] e_none
  have d: "dom (Responses res) = RefID ` set qs" by auto
  have nw: "nworkers ?g = ?w" by (simp add: nworkers_run)
  have ret: "workers ?g k = Returned" if "k < ?w" for k
    using drain_returns [where w = ?w and g = "run ?n (queryJob api adj ro qs) sched ?init"
        and k = k and n = ?n and jf = "queryJob api adj ro qs"] that
    by (simp add: run_append nworkers_run)
  have nobusy: "\<not> busy ?g i" for i
    using ret unfolding busy_def nw by auto
  from False have "0 < ?w" by simp
  from poolInv_returned [OF pool _ _ ret [OF this]] e e_none nw \<open>0 < ?w\<close>
  have "?n < indexes ?g" by simp
  with nobusy have fin: "i \<in> finished ?n ?g" if "i < ?n" for i
    using that by (simp add: finished_def)
  have "Responses res x = Responses ?seq x" for x
  proof (cases "x \<in> RefID ` set qs")
    case True
    then obtain i where i: "i < ?n" and x: "x = RefID (qs ! i)"
      by (auto simp: in_set_conv_nth)
    from val fin [OF i] have "Responses res x = Some (executeQuery None (qs ! i) api adj ro)"
      unfolding x res by (simp add: valueInv_def)
    moreover from i have "qs ! i \<in> set qs" by simp
    from seq_value [OF dist this]
    have "Responses ?seq x = Some (executeQuery None (qs ! i) api adj ro)"
      unfolding x .
    ultimately show ?thesis by simp
  next
    case False
    with d have "Responses res x = None" by (auto simp: dom_def)
    moreover from False have "Responses ?seq x = None"
      using seq_dom [of None api adj ro NewQueryDataResponse qs]
      by (auto simp: dom_def NewQueryDataResponse_def)
    ultimately show ?thesis by simp
  qed
  then have "Responses res = Responses ?seq" by (rule ext)
  then have "res = ?seq" by simp
  with fe e_none show ?thesis by simp
qed

section \<open>Proofs: queryData\<close>

lemma queryData_sequential:
  assumes "parse req = (queries, None)"
  shows "queryData newLokiAPI parse adjustFrame sched ctx req dsInfo responseOpts False rsm
     = (foldl (\<lambda>result q. storeResult ctx
                (newLokiAPI (HTTPClient dsInfo) (datasourceInfo.URL dsInfo) rsm)
                adjustFrame responseOpts q result) NewQueryDataResponse queries, None)"
  using assms by (simp add: queryData_def Let_def)

lemma queryData_parallel:
  assumes "parse req = (queries, None)"
  shows "queryData newLokiAPI parse adjustFrame sched ctx req dsInfo responseOpts True rsm
     = ForEachJob sched ctx (length queries) 10
         (queryJob (newLokiAPI (HTTPClient dsInfo) (datasourceInfo.URL dsInfo) rsm)
            adjustFrame responseOpts queries) NewQueryDataResponse"
  using assms by (simp add: queryData_def Let_def)

lemma queryData_live:
  assumes "parse req = (queries, None)" "distinct (map RefID queries)" "list_all isStep sched"
  shows "queryData newLokiAPI parse adjustFrame sched None req dsInfo responseOpts True rsm
     = (foldl (\<lambda>result q. storeResult None
                (newLokiAPI (HTTPClient dsInfo) (datasourceInfo.URL dsInfo) rsm)
                adjustFrame responseOpts q result) NewQueryDataResponse queries, None)"
proof -
  have "queryData newLokiAPI parse adjustFrame sched None req dsInfo responseOpts True rsm
     = ForEachJob sched None (length queries) 10
         (queryJob (newLokiAPI (HTTPClient dsInfo) (datasourceInfo.URL dsInfo) rsm)
            adjustFrame responseOpts queries) NewQueryDataResponse"
    by (rule queryData_parallel) (rule assms(1))
  also have "\<dots> = (foldl (\<lambda>result q. storeResult None
                (newLokiAPI (HTTPClient dsInfo) (datasourceInfo.URL dsInfo) rsm)
                adjustFrame responseOpts q result) NewQueryDataResponse queries, None)"
    by (rule ForEachJob_live [OF assms(2,3)])
  finally show ?thesis .
qed

lemma executeQuery_failure:
  assumes "DataQuery api c q ro = (frames, Some e)"
  shows "executeQuery c q api adj ro = \<lparr>Frames = [], Error = Some e\<rparr>"
  using assms by (simp add: executeQuery_def runQuery_def)

lemma seq_dom_New:
  "dom (Responses (foldl (\<lambda>result q. storeResult c api adj ro q result) NewQueryDataResponse qs))
     = RefID ` set qs"
  by (simp add: seq_dom NewQueryDataResponse_def)

text \<open>
  C1 (as amended). A batch of parsed queries with pairwise distinct identifiers is
  dispatched, sequentially or in parallel without cancellation, and the backend call of one
  query \<open>q\<close> returns an error \<open>e\<close>. Then \<open>queryData\<close> returns no request-level error, the
  entry under the identifier of \<open>q\<close> is the failure carrying \<open>e\<close>, and the entry under every
  other identifier is what it is when the batch is dispatched without \<open>q\<close>. Under every
  schedule and context, cancelled or not, a request-level error of the parallel mode is the
  error of the context, never one the backend reported.
\<close>

theorem queryData_isolates_backend_failure:
  assumes "parse req = (earlier @ q # later, None)" and "parse req' = (earlier @ later, None)"
    and "distinct (map RefID (earlier @ q # later))"
    and "DataQuery (newLokiAPI (HTTPClient dsInfo) (datasourceInfo.URL dsInfo) rsm) ctx q responseOpts
           = (frames, Some e)"
    and "runInParallel \<longrightarrow> ctx = None \<and> list_all isStep sched \<and> list_all isStep sched'"
  shows "snd (queryData newLokiAPI parse adjustFrame sched ctx req dsInfo responseOpts
                runInParallel rsm) = None
     \<and> Responses (fst (queryData newLokiAPI parse adjustFrame sched ctx req dsInfo responseOpts
                runInParallel rsm)) (RefID q) = Some \<lparr>Frames = [], Error = Some e\<rparr>
     \<and> (\<forall>x. x \<noteq> RefID q \<longrightarrow>
           Responses (fst (queryData newLokiAPI parse adjustFrame sched ctx req dsInfo
                responseOpts runInParallel rsm)) x
           = Responses (fst (queryData newLokiAPI parse adjustFrame sched' ctx req' dsInfo
                responseOpts runInParallel rsm)) x)
     \<and> (\<forall>s c. snd (queryData newLokiAPI parse adjustFrame s c req dsInfo responseOpts True rsm)
                  = None
              \<or> snd (queryData newLokiAPI parse adjustFrame s c req dsInfo responseOpts True rsm)
                  = c
              \<or> (\<exists>x. Cancel x \<in> set s
                    \<and> snd (queryData newLokiAPI parse adjustFrame s c req dsInfo responseOpts
                         True rsm) = Some x))"
proof -
  let ?api = "newLokiAPI (HTTPClient dsInfo) (datasourceInfo.URL dsInfo) rsm"
  let ?f = "\<lambda>result q. storeResult ctx ?api adjustFrame responseOpts q result"
  have d': "distinct (map RefID (earlier @ later))" using assms(3) by auto
  have qd: "queryData newLokiAPI parse adjustFrame sched ctx req dsInfo responseOpts
              runInParallel rsm = (foldl ?f NewQueryDataResponse (earlier @ q # later), None)"
  proof (cases runInParallel)
    case True
    with assms(5) have "ctx = None" and "list_all isStep sched" by simp_all
    moreover have "queryData newLokiAPI parse adjustFrame sched None req dsInfo responseOpts
        True rsm
      = (foldl (\<lambda>result q. storeResult None ?api adjustFrame responseOpts q result)
           NewQueryDataResponse (earlier @ q # later), None)"
      using assms(1,3) \<open>list_all isStep sched\<close> by (rule queryData_live)
    ultimately show ?thesis using True by simp
  next
    case False
    moreover have "queryData newLokiAPI parse adjustFrame sched ctx req dsInfo responseOpts
        False rsm
      = (foldl (\<lambda>result q. storeResult ctx ?api adjustFrame responseOpts q result)
           NewQueryDataResponse (earlier @ q # later), None)"
      by (rule queryData_sequential) (rule assms(1))
    ultimately show ?thesis by simp
  qed
  have qd': "queryData newLokiAPI parse adjustFrame sched' ctx req' dsInfo responseOpts
              runInParallel rsm = (foldl ?f NewQueryDataResponse (earlier @ later), None)"
  proof (cases runInParallel)
    case True
    with assms(5) have "ctx = None" and "list_all isStep sched'" by simp_all
    moreover have "queryData newLokiAPI parse adjustFrame sched' None req' dsInfo responseOpts
        True rsm
      = (foldl (\<lambda>result q. storeResult None ?api adjustFrame responseOpts q result)
           NewQueryDataResponse (earlier @ later), None)"
      using assms(2) d' \<open>list_all isStep sched'\<close> by (rule queryData_live)
    ultimately show ?thesis using True by simp
  next
    case False
    moreover have "queryData newLokiAPI parse adjustFrame sched' ctx req' dsInfo responseOpts
        False rsm
      = (foldl (\<lambda>result q. storeResult ctx ?api adjustFrame responseOpts q result)
           NewQueryDataResponse (earlier @ later), None)"
      by (rule queryData_sequential) (rule assms(2))
    ultimately show ?thesis by simp
  qed
  from assms(3) have "RefID q \<notin> RefID ` set later" by auto
  then have "Responses (foldl ?f NewQueryDataResponse (earlier @ q # later)) (RefID q)
      = Some (executeQuery ctx q ?api adjustFrame responseOpts)"
    by (rule seq_entry)
  then have entry: "Responses (foldl ?f NewQueryDataResponse (earlier @ q # later)) (RefID q)
      = Some \<lparr>Frames = [], Error = Some e\<rparr>"
    by (simp only: executeQuery_failure [OF assms(4)])
  have others: "\<forall>x. x \<noteq> RefID q \<longrightarrow>
      Responses (foldl ?f NewQueryDataResponse (earlier @ q # later)) x
      = Responses (foldl ?f NewQueryDataResponse (earlier @ later)) x"
    by (intro allI impI) (rule seq_isolation)
  have origin: "snd (queryData newLokiAPI parse adjustFrame s c req dsInfo responseOpts True rsm)
                  = None
              \<or> snd (queryData newLokiAPI parse adjustFrame s c req dsInfo responseOpts True rsm)
                  = c
              \<or> (\<exists>x. Cancel x \<in> set s
                    \<and> snd (queryData newLokiAPI parse adjustFrame s c req dsInfo responseOpts
                         True rsm) = Some x)" for s c
  proof -
    obtain res e' where fe: "ForEachJob s c (length (earlier @ q # later)) 10
         (queryJob ?api adjustFrame responseOpts (earlier @ q # later)) NewQueryDataResponse = (res, e')"
      by (cases "ForEachJob s c (length (earlier @ q # later)) 10
         (queryJob ?api adjustFrame responseOpts (earlier @ q # later)) NewQueryDataResponse")
    have "queryData newLokiAPI parse adjustFrame s c req dsInfo responseOpts True rsm
        = ForEachJob s c (length (earlier @ q # later)) 10
           (queryJob ?api adjustFrame responseOpts (earlier @ q # later)) NewQueryDataResponse"
      by (rule queryData_parallel) (rule assms(1))
    with ForEachJob_queryJob(2) [OF fe] fe show ?thesis
      by simp
  qed
  from entry others origin show ?thesis
    unfolding qd qd' by simp
qed

theorem queryData_isolates_backend_failure_witness:
  "snd (queryData exampleAPI exampleParse exampleAdjust [Step 2, Step 0, Step 1] None
          [exampleQuery ''A'' ''up'', exampleQuery ''B'' ''bad'', exampleQuery ''C'' ''down'']
          exampleDS exampleOpts True False) = None
   \<and> Responses (fst (queryData exampleAPI exampleParse exampleAdjust [Step 2, Step 0, Step 1] None
          [exampleQuery ''A'' ''up'', exampleQuery ''B'' ''bad'', exampleQuery ''C'' ''down'']
          exampleDS exampleOpts True False)) ''B''
       = Some \<lparr>Frames = [], Error = Some (Errorf ''parse error'')\<rparr>
   \<and> Responses (fst (queryData exampleAPI exampleParse exampleAdjust [Step 2, Step 0, Step 1] None
          [exampleQuery ''A'' ''up'', exampleQuery ''B'' ''bad'', exampleQuery ''C'' ''down'']
          exampleDS exampleOpts True False)) ''C''
       = Responses (fst (queryData exampleAPI exampleParse exampleAdjust [Step 1] None
          [exampleQuery ''A'' ''up'', exampleQuery ''C'' ''down'']
          exampleDS exampleOpts True False)) ''C''"
proof -
  let ?a = "exampleQuery ''A'' ''up''" and ?b = "exampleQuery ''B'' ''bad''"
    and ?c = "exampleQuery ''C'' ''down''"
  have p: "exampleParse ([?a] @ ?b # [?c]) = ([?a] @ ?b # [?c], None)"
    by (simp add: exampleParse_def)
  have p': "exampleParse ([?a] @ [?c]) = ([?a] @ [?c], None)"
    by (simp add: exampleParse_def)
  have d: "distinct (map RefID ([?a] @ ?b # [?c]))" by (simp add: exampleQuery_def)
  have f: "DataQuery (exampleAPI (HTTPClient exampleDS) (datasourceInfo.URL exampleDS) False)
             None ?b exampleOpts = ([], Some (Errorf ''parse error''))"
    by (simp add: exampleAPI_def exampleQuery_def)
  have s: "True \<longrightarrow> (None :: Context) = None \<and> list_all isStep [Step 2, Step 0, Step 1]
             \<and> list_all isStep [Step 1]"
    by simp
  have b: "RefID ?b = ''B''" and c: "''C'' \<noteq> RefID ?b" by (simp_all add: exampleQuery_def)
  from queryData_isolates_backend_failure [where parse = exampleParse
      and req = "[?a] @ ?b # [?c]" and req' = "[?a] @ [?c]" and earlier = "[?a]" and q = ?b
      and later = "[?c]" and newLokiAPI = exampleAPI and dsInfo = exampleDS and rsm = False
      and ctx = None and responseOpts = exampleOpts and runInParallel = True
      and sched = "[Step 2, Step 0, Step 1]" and sched' = "[Step 1]"
      and adjustFrame = exampleAdjust, OF p p' d f s]
  show ?thesis
    unfolding b using c by simp
qed

text \<open>
  The claim C1 as it is stated, for every batch, fails. Two queries that share the
  identifier \<^verbatim>\<open>A\<close>: the failure of the second replaces the success of the first, which is
  recorded when the failing query is absent. And under cancellation, with distinct
  identifiers: the failing query takes the first worker, the context is cancelled once two
  jobs have started, and the third query gets no entry, while it gets one when the failing
  query is absent.
\<close>

theorem queryData_isolation_counterexample:
  "Responses (fst (queryData exampleAPI exampleParse exampleAdjust [] None
        [exampleQuery ''A'' ''up'', exampleQuery ''A'' ''bad''] exampleDS exampleOpts
        False False)) ''A''
     = Some \<lparr>Frames = [], Error = Some (Errorf ''parse error'')\<rparr>
   \<and> Responses (fst (queryData exampleAPI exampleParse exampleAdjust [] None
        [exampleQuery ''A'' ''up''] exampleDS exampleOpts False False)) ''A''
     = Some \<lparr>Frames = [''up''], Error = None\<rparr>
   \<and> Responses (fst (queryData exampleAPI exampleParse exampleAdjust
        [Step 0, Step 1, Cancel ContextCanceled] None
        [exampleQuery ''B'' ''bad'', exampleQuery ''A1'' ''up'', exampleQuery ''A2'' ''down'']
        exampleDS exampleOpts True False)) ''A2''
     = None
   \<and> Responses (fst (queryData exampleAPI exampleParse exampleAdjust
        [Step 0, Step 1, Cancel ContextCanceled] None
        [exampleQuery ''A1'' ''up'', exampleQuery ''A2'' ''down'']
        exampleDS exampleOpts True False)) ''A2''
     = Some \<lparr>Frames = [], Error = Some ContextCanceled\<rparr>"
  by code_simp

text \<open>
  C2. A request whose sub-queries parse and carry pairwise distinct identifiers is
  dispatched with no cancellation, sequentially or in parallel under any schedule of the
  workers. Then \<open>queryData\<close> returns no error and a response map whose keys are exactly
  the identifiers of the queries, as many as there are queries: one entry for each.
\<close>

theorem queryData_one_entry_per_query:
  assumes "parse req = (queries, None)" and "distinct (map RefID queries)"
    and "runInParallel \<longrightarrow> ctx = None \<and> list_all isStep sched"
  shows "snd (queryData newLokiAPI parse adjustFrame sched ctx req dsInfo responseOpts
                runInParallel rsm) = None
     \<and> dom (Responses (fst (queryData newLokiAPI parse adjustFrame sched ctx req dsInfo
                responseOpts runInParallel rsm))) = RefID ` set queries
     \<and> card (dom (Responses (fst (queryData newLokiAPI parse adjustFrame sched ctx req dsInfo
                responseOpts runInParallel rsm)))) = length queries"
proof -
  let ?api = "newLokiAPI (HTTPClient dsInfo) (datasourceInfo.URL dsInfo) rsm"
  let ?seq = "foldl (\<lambda>result q. storeResult ctx ?api adjustFrame responseOpts q result)
                NewQueryDataResponse queries"
  have qd: "queryData newLokiAPI parse adjustFrame sched ctx req dsInfo responseOpts
              runInParallel rsm = (?seq, None)"
  proof (cases runInParallel)
    case True
    with assms(3) have "ctx = None" and "list_all isStep sched" by simp_all
    moreover have "queryData newLokiAPI parse adjustFrame sched None req dsInfo responseOpts
        True rsm
      = (foldl (\<lambda>result q. storeResult None ?api adjustFrame responseOpts q result)
           NewQueryDataResponse queries, None)"
      using assms(1,2) \<open>list_all isStep sched\<close> by (rule queryData_live)
    ultimately show ?thesis using True by simp
  next
    case False
    moreover have "queryData newLokiAPI parse adjustFrame sched ctx req dsInfo responseOpts
        False rsm
      = (foldl (\<lambda>result q. storeResult ctx ?api adjustFrame responseOpts q result)
           NewQueryDataResponse queries, None)"
      by (rule queryData_sequential) (rule assms(1))
    ultimately show ?thesis by simp
  qed
  have "card (RefID ` set queries) = length queries"
    using distinct_card [OF assms(2)] by simp
  then show ?thesis
    unfolding qd by (simp add: seq_dom_New)
qed

theorem queryData_one_entry_per_query_witness:
  "snd (queryData exampleAPI exampleParse exampleAdjust [Step 1, Step 0, Step 0, Step 1] None
          [exampleQuery ''A'' ''up'', exampleQuery ''B'' ''bad''] exampleDS exampleOpts
          True False) = None
   \<and> dom (Responses (fst (queryData exampleAPI exampleParse exampleAdjust
          [Step 1, Step 0, Step 0, Step 1] None
          [exampleQuery ''A'' ''up'', exampleQuery ''B'' ''bad''] exampleDS exampleOpts
          True False))) = {''A'', ''B''}
   \<and> card (dom (Responses (fst (queryData exampleAPI exampleParse exampleAdjust
          [Step 1, Step 0, Step 0, Step 1] None
          [exampleQuery ''A'' ''up'', exampleQuery ''B'' ''bad''] exampleDS exampleOpts
          True False)))) = 2"
proof -
  let ?qs = "[exampleQuery ''A'' ''up'', exampleQuery ''B'' ''bad'']"
  have p: "exampleParse ?qs = (?qs, None)" by (simp add: exampleParse_def)
  have d: "distinct (map RefID ?qs)" by (simp add: exampleQuery_def)
  have s: "True \<longrightarrow> (None :: Context) = None \<and> list_all isStep [Step 1, Step 0, Step 0, Step 1]"
    by simp
  have ids: "RefID ` set ?qs = {''A'', ''B''}" by (simp add: exampleQuery_def)
  from queryData_one_entry_per_query [where parse = exampleParse and req = ?qs
      and runInParallel = True and ctx = None and sched = "[Step 1, Step 0, Step 0, Step 1]"
      and newLokiAPI = exampleAPI and adjustFrame = exampleAdjust and dsInfo = exampleDS
      and responseOpts = exampleOpts and rsm = False, OF p d s]
  show ?thesis
    unfolding ids by simp
qed

text \<open>
  C3 (as amended). For a request whose parsed queries carry pairwise distinct identifiers,
  when the context is not cancelled, the parallel mode under every schedule of the workers
  returns what the sequential mode returns: the same response map and no error.
\<close>

theorem queryData_parallel_eq_sequential:
  assumes "parse req = (queries, None)" and "distinct (map RefID queries)"
    and "list_all isStep sched"
  shows "queryData newLokiAPI parse adjustFrame sched None req dsInfo responseOpts True rsm
       = queryData newLokiAPI parse adjustFrame sched' None req dsInfo responseOpts False rsm"
proof -
  have "queryData newLokiAPI parse adjustFrame sched None req dsInfo responseOpts True rsm
      = (foldl (\<lambda>result q. storeResult None
                (newLokiAPI (HTTPClient dsInfo) (datasourceInfo.URL dsInfo) rsm)
                adjustFrame responseOpts q result) NewQueryDataResponse queries, None)"
    using assms by (rule queryData_live)
  moreover have "queryData newLokiAPI parse adjustFrame sched' None req dsInfo responseOpts False rsm
      = (foldl (\<lambda>result q. storeResult None
                (newLokiAPI (HTTPClient dsInfo) (datasourceInfo.URL dsInfo) rsm)
                adjustFrame responseOpts q result) NewQueryDataResponse queries, None)"
    by (rule queryData_sequential) (rule assms(1))
  ultimately show ?thesis by simp
qed

theorem queryData_parallel_eq_sequential_witness:
  "queryData exampleAPI exampleParse exampleAdjust [Step 1, Step 0, Step 0, Step 1] None
     [exampleQuery ''A'' ''up'', exampleQuery ''B'' ''bad''] exampleDS exampleOpts True False
   = queryData exampleAPI exampleParse exampleAdjust [] None
     [exampleQuery ''A'' ''up'', exampleQuery ''B'' ''bad''] exampleDS exampleOpts False False"
proof -
  let ?qs = "[exampleQuery ''A'' ''up'', exampleQuery ''B'' ''bad'']"
  have p: "exampleParse ?qs = (?qs, None)" by (simp add: exampleParse_def)
  have d: "distinct (map RefID ?qs)" by (simp add: exampleQuery_def)
  have s: "list_all isStep [Step 1, Step 0, Step 0, Step 1]" by simp
  show ?thesis
    by (rule queryData_parallel_eq_sequential [where parse = exampleParse and req = ?qs, OF p d s])
qed

text \<open>
  The claim C3 as it is stated, for every request, fails. With two queries that share the
  identifier \<^verbatim>\<open>A\<close>, the worker of the second query stores its result first and the
  parallel mode keeps the result of the first query, the sequential mode that of the
  second. With a context that is cancelled when \<open>queryData\<close> is entered, the parallel mode
  runs no query and the sequential mode runs them all.
\<close>

theorem queryData_parallel_vs_sequential_counterexample:
  "Responses (fst (queryData exampleAPI exampleParse exampleAdjust
        [Step 0, Step 1, Step 1, Step 0] None
        [exampleQuery ''A'' ''up'', exampleQuery ''A'' ''down''] exampleDS exampleOpts
        True False)) ''A''
     = Some \<lparr>Frames = [''up''], Error = None\<rparr>
   \<and> Responses (fst (queryData exampleAPI exampleParse exampleAdjust
        [Step 0, Step 1, Step 1, Step 0] None
        [exampleQuery ''A'' ''up'', exampleQuery ''A'' ''down''] exampleDS exampleOpts
        False False)) ''A''
     = Some \<lparr>Frames = [''down''], Error = None\<rparr>
   \<and> Responses (fst (queryData exampleAPI exampleParse exampleAdjust [] (Some ContextCanceled)
        [exampleQuery ''A'' ''up'', exampleQuery ''B'' ''down''] exampleDS exampleOpts
        True False)) ''A''
     = None
   \<and> Responses (fst (queryData exampleAPI exampleParse exampleAdjust [] (Some ContextCanceled)
        [exampleQuery ''A'' ''up'', exampleQuery ''B'' ''down''] exampleDS exampleOpts
        False False)) ''A''
     = Some \<lparr>Frames = [], Error = Some ContextCanceled\<rparr>"
  by code_simp





text \<open>
  C7 (as amended). After a successful parse the sequential mode returns no error and one
  entry for every identifier. The parallel mode returns, under every schedule and whenever
  the context is cancelled, entries for the identifiers of an initial segment of the batch;
  this is the whole batch whenever \<open>queryData\<close> returns no error, and an error it returns
  is the error of the context. In both modes every entry is the result \<open>executeQuery\<close>
  gave for a query of that identifier: there is no entry of a kind of its own for a query
  that was never run. For a batch of at least two queries in the parallel mode:

  \<^item> when the context is cancelled already as \<open>queryData\<close> is entered, under every
    schedule no query is started, the response map is empty and \<open>queryData\<close> returns the
    error of the context;

  \<^item> when the context is cancelled with the error \<open>c\<close> after the actions \<open>pre\<close> of the
    workers, then whatever happens afterwards the response map has entries for exactly the
    identifiers of the queries started by \<open>pre\<close>, the first \<open>startedBy pre\<close> of the
    batch; with distinct identifiers every later query has no entry; and if a query was
    not started \<open>queryData\<close> returns this partial map together with \<open>c\<close>.
\<close>

theorem queryData_cancellation:
  assumes "parse req = (queries, None)"
  shows "(\<not> runInParallel \<longrightarrow>
            snd (queryData newLokiAPI parse adjustFrame sched ctx req dsInfo responseOpts
                   runInParallel rsm) = None
          \<and> dom (Responses (fst (queryData newLokiAPI parse adjustFrame sched ctx req dsInfo
                   responseOpts runInParallel rsm))) = RefID ` set queries)
     \<and> (runInParallel \<longrightarrow>
            (\<exists>k \<le> length queries.
               dom (Responses (fst (queryData newLokiAPI parse adjustFrame sched ctx req dsInfo
                   responseOpts runInParallel rsm))) = RefID ` set (take k queries)
               \<and> (snd (queryData newLokiAPI parse adjustFrame sched ctx req dsInfo responseOpts
                   runInParallel rsm) = None \<longrightarrow> k = length queries))
          \<and> (snd (queryData newLokiAPI parse adjustFrame sched ctx req dsInfo responseOpts
                   runInParallel rsm) = None
              \<or> snd (queryData newLokiAPI parse adjustFrame sched ctx req dsInfo responseOpts
                   runInParallel rsm) = ctx
              \<or> (\<exists>x. Cancel x \<in> set sched
                    \<and> snd (queryData newLokiAPI parse adjustFrame sched ctx req dsInfo
                         responseOpts runInParallel rsm) = Some x)))
     \<and> (\<forall>r v. Responses (fst (queryData newLokiAPI parse adjustFrame sched ctx req dsInfo
                   responseOpts runInParallel rsm)) r = Some v \<longrightarrow>
            (\<exists>q c. q \<in> set queries \<and> RefID q = r
               \<and> v = executeQuery c q (newLokiAPI (HTTPClient dsInfo) (datasourceInfo.URL dsInfo) rsm)
                       adjustFrame responseOpts))
     \<and> (2 \<le> length queries \<longrightarrow>
          (\<forall>s c. Responses (fst (queryData newLokiAPI parse adjustFrame s (Some c) req dsInfo
                     responseOpts True rsm)) = Map.empty
               \<and> snd (queryData newLokiAPI parse adjustFrame s (Some c) req dsInfo
                     responseOpts True rsm) = Some c))
     \<and> (2 \<le> length queries \<longrightarrow>
          (\<forall>pre c post. list_all isStep pre \<longrightarrow>
               dom (Responses (fst (queryData newLokiAPI parse adjustFrame (pre @ Cancel c # post)
                     None req dsInfo responseOpts True rsm)))
                 = RefID ` set (take (startedBy pre (length queries) 10) queries)
             \<and> (distinct (map RefID queries) \<longrightarrow>
                  (\<forall>q \<in> set (drop (startedBy pre (length queries) 10) queries).
                     Responses (fst (queryData newLokiAPI parse adjustFrame (pre @ Cancel c # post)
                       None req dsInfo responseOpts True rsm)) (RefID q) = None))
             \<and> (startedBy pre (length queries) 10 < length queries \<longrightarrow>
                  snd (queryData newLokiAPI parse adjustFrame (pre @ Cancel c # post)
                     None req dsInfo responseOpts True rsm) = Some c)))"
proof -
  let ?api = "newLokiAPI (HTTPClient dsInfo) (datasourceInfo.URL dsInfo) rsm"
  let ?job = "queryJob ?api adjustFrame responseOpts queries"
  have par: "queryData newLokiAPI parse adjustFrame s c req dsInfo responseOpts True rsm
      = ForEachJob s c (length queries) 10 ?job NewQueryDataResponse" for s c
    by (rule queryData_parallel) (rule assms)
  have general: "(\<not> runInParallel \<longrightarrow>
            snd (queryData newLokiAPI parse adjustFrame sched ctx req dsInfo responseOpts
                   runInParallel rsm) = None
          \<and> dom (Responses (fst (queryData newLokiAPI parse adjustFrame sched ctx req dsInfo
                   responseOpts runInParallel rsm))) = RefID ` set queries)
     \<and> (runInParallel \<longrightarrow>
            (\<exists>k \<le> length queries.
               dom (Responses (fst (queryData newLokiAPI parse adjustFrame sched ctx req dsInfo
                   responseOpts runInParallel rsm))) = RefID ` set (take k queries)
               \<and> (snd (queryData newLokiAPI parse adjustFrame sched ctx req dsInfo responseOpts
                   runInParallel rsm) = None \<longrightarrow> k = length queries))
          \<and> (snd (queryData newLokiAPI parse adjustFrame sched ctx req dsInfo responseOpts
                   runInParallel rsm) = None
              \<or> snd (queryData newLokiAPI parse adjustFrame sched ctx req dsInfo responseOpts
                   runInParallel rsm) = ctx
              \<or> (\<exists>x. Cancel x \<in> set sched
                    \<and> snd (queryData newLokiAPI parse adjustFrame sched ctx req dsInfo
                         responseOpts runInParallel rsm) = Some x)))
     \<and> (\<forall>r v. Responses (fst (queryData newLokiAPI parse adjustFrame sched ctx req dsInfo
                   responseOpts runInParallel rsm)) r = Some v \<longrightarrow>
            (\<exists>q c. q \<in> set queries \<and> RefID q = r
               \<and> v = executeQuery c q ?api adjustFrame responseOpts))"
  proof (cases runInParallel)
    case False
    let ?seq = "foldl (\<lambda>result q. storeResult ctx ?api adjustFrame responseOpts q result)
                  NewQueryDataResponse queries"
    have "entryInv ?api adjustFrame responseOpts queries ?seq"
      by (rule seq_entryInv) (simp_all add: entryInv_def NewQueryDataResponse_def)
    then have ent: "\<forall>r v. Responses ?seq r = Some v \<longrightarrow>
              (\<exists>q c. q \<in> set queries \<and> RefID q = r
                 \<and> v = executeQuery c q ?api adjustFrame responseOpts)"
      unfolding entryInv_def .
    have "queryData newLokiAPI parse adjustFrame sched ctx req dsInfo responseOpts False rsm
        = (?seq, None)"
      by (rule queryData_sequential) (rule assms)
    with False have seq: "queryData newLokiAPI parse adjustFrame sched ctx req dsInfo responseOpts
        runInParallel rsm = (?seq, None)"
      by simp
    from False ent show ?thesis
      unfolding seq by (simp add: seq_dom_New)
  next
    case True
    obtain res e where fe: "ForEachJob sched ctx (length queries) 10 ?job NewQueryDataResponse
        = (res, e)"
      by (cases "ForEachJob sched ctx (length queries) 10 ?job NewQueryDataResponse")
    note a = ForEachJob_queryJob(1) [OF fe] and b = ForEachJob_queryJob(2) [OF fe]
      and c = ForEachJob_queryJob(3) [OF fe, unfolded entryInv_def]
    from True fe par [of sched ctx]
    have qd: "queryData newLokiAPI parse adjustFrame sched ctx req dsInfo responseOpts
        runInParallel rsm = (res, e)"
      by simp
    from True a b c show ?thesis
      unfolding qd by simp
  qed
  have entered: "Responses (fst (queryData newLokiAPI parse adjustFrame s (Some c) req dsInfo
                     responseOpts True rsm)) = Map.empty
               \<and> snd (queryData newLokiAPI parse adjustFrame s (Some c) req dsInfo
                     responseOpts True rsm) = Some c"
    if "2 \<le> length queries" for s c
  proof -
    from that have "length queries \<noteq> 0" by auto
    then have "ForEachJob s (Some c) (length queries) 10 ?job NewQueryDataResponse
        = (NewQueryDataResponse, Some c)"
      by (rule ForEachJob_cancelled)
    then show ?thesis
      unfolding par by (simp add: NewQueryDataResponse_def)
  qed
  have running: "dom (Responses (fst (queryData newLokiAPI parse adjustFrame (pre @ Cancel c # post)
                     None req dsInfo responseOpts True rsm)))
                 = RefID ` set (take (startedBy pre (length queries) 10) queries)
             \<and> (distinct (map RefID queries) \<longrightarrow>
                  (\<forall>q \<in> set (drop (startedBy pre (length queries) 10) queries).
                     Responses (fst (queryData newLokiAPI parse adjustFrame (pre @ Cancel c # post)
                       None req dsInfo responseOpts True rsm)) (RefID q) = None))
             \<and> (startedBy pre (length queries) 10 < length queries \<longrightarrow>
                  snd (queryData newLokiAPI parse adjustFrame (pre @ Cancel c # post)
                     None req dsInfo responseOpts True rsm) = Some c)"
    if n: "2 \<le> length queries" and pre: "list_all isStep pre" for pre c post
  proof -
    let ?k = "startedBy pre (length queries) 10"
    from n have n0: "length queries \<noteq> 0" by auto
    obtain res e where fe: "ForEachJob (pre @ Cancel c # post) None (length queries) 10 ?job
        NewQueryDataResponse = (res, e)"
      by (cases "ForEachJob (pre @ Cancel c # post) None (length queries) 10 ?job
        NewQueryDataResponse")
    note d = ForEachJob_cancel(1) [OF n0 pre fe] and er = ForEachJob_cancel(2) [OF n0 pre fe]
    have none: "Responses res (RefID q) = None"
      if dist: "distinct (map RefID queries)" and q: "q \<in> set (drop ?k queries)" for q
    proof -
      from dist have "distinct (map RefID (take ?k queries) @ map RefID (drop ?k queries))"
        by (simp only: map_append [symmetric] append_take_drop_id)
      then have "set (map RefID (take ?k queries)) \<inter> set (map RefID (drop ?k queries)) = {}"
        by (simp only: distinct_append)
      with q have "RefID q \<notin> RefID ` set (take ?k queries)" by auto
      with d show ?thesis by (auto simp: dom_def)
    qed
    from d none er show ?thesis
      unfolding par fe by simp
  qed
  note g1 = general [THEN conjunct1] and g2 = general [THEN conjunct2, THEN conjunct1]
    and g3 = general [THEN conjunct2, THEN conjunct2]
  have g4: "2 \<le> length queries \<longrightarrow>
          (\<forall>s c. Responses (fst (queryData newLokiAPI parse adjustFrame s (Some c) req dsInfo
                     responseOpts True rsm)) = Map.empty
               \<and> snd (queryData newLokiAPI parse adjustFrame s (Some c) req dsInfo
                     responseOpts True rsm) = Some c)"
    by (intro impI allI) (rule entered)
  have g5: "2 \<le> length queries \<longrightarrow>
          (\<forall>pre c post. list_all isStep pre \<longrightarrow>
               dom (Responses (fst (queryData newLokiAPI parse adjustFrame (pre @ Cancel c # post)
                     None req dsInfo responseOpts True rsm)))
                 = RefID ` set (take (startedBy pre (length queries) 10) queries)
             \<and> (distinct (map RefID queries) \<longrightarrow>
                  (\<forall>q \<in> set (drop (startedBy pre (length queries) 10) queries).
                     Responses (fst (queryData newLokiAPI parse adjustFrame (pre @ Cancel c # post)
                       None req dsInfo responseOpts True rsm)) (RefID q) = None))
             \<and> (startedBy pre (length queries) 10 < length queries \<longrightarrow>
                  snd (queryData newLokiAPI parse adjustFrame (pre @ Cancel c # post)
                     None req dsInfo responseOpts True rsm) = Some c))"
    by (intro impI allI) (rule running)
  show ?thesis
    by (rule conjI [OF g1 conjI [OF g2 conjI [OF g3 conjI [OF g4 g5]]]])
qed

theorem queryData_cancellation_witness:
  "dom (Responses (fst (queryData exampleAPI exampleParse exampleAdjust
          [Step 0, Cancel ContextCanceled, Step 1] None
          [exampleQuery ''A'' ''up'', exampleQuery ''B'' ''down'', exampleQuery ''C'' ''bad'']
          exampleDS exampleOpts True False))) = {''A''}
   \<and> Responses (fst (queryData exampleAPI exampleParse exampleAdjust
          [Step 0, Cancel ContextCanceled, Step 1] None
          [exampleQuery ''A'' ''up'', exampleQuery ''B'' ''down'', exampleQuery ''C'' ''bad'']
          exampleDS exampleOpts True False)) ''B'' = None
   \<and> snd (queryData exampleAPI exampleParse exampleAdjust
          [Step 0, Cancel ContextCanceled, Step 1] None
          [exampleQuery ''A'' ''up'', exampleQuery ''B'' ''down'', exampleQuery ''C'' ''bad'']
          exampleDS exampleOpts True False) = Some ContextCanceled
   \<and> snd (queryData exampleAPI exampleParse exampleAdjust [Step 1, Step 0]
          (Some DeadlineExceeded)
          [exampleQuery ''A'' ''up'', exampleQuery ''B'' ''down'', exampleQuery ''C'' ''bad'']
          exampleDS exampleOpts True False) = Some DeadlineExceeded
   \<and> Responses (fst (queryData exampleAPI exampleParse exampleAdjust [Step 1, Step 0]
          (Some DeadlineExceeded)
          [exampleQuery ''A'' ''up'', exampleQuery ''B'' ''down'', exampleQuery ''C'' ''bad'']
          exampleDS exampleOpts True False)) = Map.empty"
proof -
  let ?qs = "[exampleQuery ''A'' ''up'', exampleQuery ''B'' ''down'', exampleQuery ''C'' ''bad'']"
  let ?qd = "queryData exampleAPI exampleParse exampleAdjust
      ([Step 0] @ Cancel ContextCanceled # [Step 1]) None ?qs exampleDS exampleOpts True False"
  let ?qe = "queryData exampleAPI exampleParse exampleAdjust [Step 1, Step 0]
      (Some DeadlineExceeded) ?qs exampleDS exampleOpts True False"
  have p: "exampleParse ?qs = (?qs, None)" by (simp add: exampleParse_def)
  note t = queryData_cancellation [where parse = exampleParse and req = ?qs
      and runInParallel = True and newLokiAPI = exampleAPI and adjustFrame = exampleAdjust
      and sched = "[]" and ctx = None and dsInfo = exampleDS
      and responseOpts = exampleOpts and rsm = False, OF p]
  have len: "2 \<le> length ?qs" by simp
  have st: "startedBy [Step 0] (length ?qs) 10 = 1" by code_simp
  have pre: "list_all isStep [Step 0]" by simp
  have dist: "distinct (map RefID ?qs)" by (simp add: exampleQuery_def)
  have b: "exampleQuery ''B'' ''down'' \<in> set (drop 1 ?qs)" by simp
  have ids: "RefID ` set (take 1 ?qs) = {''A''}" by (simp add: exampleQuery_def)
  have idb: "RefID (exampleQuery ''B'' ''down'') = ''B''" by (simp add: exampleQuery_def)
  note entered = t [THEN conjunct2, THEN conjunct2, THEN conjunct2, THEN conjunct1, THEN mp,
      OF len, THEN spec, THEN spec]
  note running = t [THEN conjunct2, THEN conjunct2, THEN conjunct2, THEN conjunct2, THEN mp,
      OF len, THEN spec, THEN spec, THEN spec, THEN mp, OF pre]
  from entered [of "[Step 1, Step 0]" DeadlineExceeded]
  have e1: "Responses (fst ?qe) = Map.empty" and e2: "snd ?qe = Some DeadlineExceeded"
    by (rule conjunct1, rule conjunct2)
  note r = running [of ContextCanceled "[Step 1]", unfolded st]
  from r [THEN conjunct1] have d: "dom (Responses (fst ?qd)) = {''A''}"
    by (simp only: ids)
  from r [THEN conjunct2, THEN conjunct1, THEN mp, OF dist, THEN bspec, OF b]
  have n: "Responses (fst ?qd) ''B'' = None"
    by (simp only: idb)
  have "(1 :: nat) < length ?qs" by simp
  from r [THEN conjunct2, THEN conjunct2, THEN mp, OF this]
  have s: "snd ?qd = Some ContextCanceled" .
  have sch: "[Step 0] @ Cancel ContextCanceled # [Step 1] = [Step 0, Cancel ContextCanceled, Step 1]"
    by simp
  from d n s e2 e1 show ?thesis
    unfolding sch by (intro conjI)
qed

text \<open>
  The claim C7 as it is stated fails. The context is cancelled after the first of two
  queries was started: its entry is the failure the backend reported, the second query has
  no entry at all, and \<open>queryData\<close> returns the error of the context.
\<close>

theorem queryData_cancelled_counterexample:
  "Responses (fst (queryData exampleAPI exampleParse exampleAdjust
        [Step 0, Cancel ContextCanceled] None
        [exampleQuery ''A'' ''up'', exampleQuery ''B'' ''down''] exampleDS exampleOpts
        True False)) ''A''
     = Some \<lparr>Frames = [], Error = Some ContextCanceled\<rparr>
   \<and> Responses (fst (queryData exampleAPI exampleParse exampleAdjust
        [Step 0, Cancel ContextCanceled] None
        [exampleQuery ''A'' ''up'', exampleQuery ''B'' ''down''] exampleDS exampleOpts
        True False)) ''B''
     = None
   \<and> snd (queryData exampleAPI exampleParse exampleAdjust
        [Step 0, Cancel ContextCanceled] None
        [exampleQuery ''A'' ''up'', exampleQuery ''B'' ''down''] exampleDS exampleOpts
        True False)
     = Some ContextCanceled"
  by code_simp

end
